theory Spec2Isabelle
  imports Complex_Main "HOL-Library.Word" "HOL-Library.Sublist" "HOL-Library.Multiset"
begin

unbundle bit_operations_syntax

section \<open>Data model (types of the mesh compiler)\<close>

text \<open>
  Go's \<^verbatim>\<open>uint8\<close> and \<^verbatim>\<open>uint32\<close> are machine words. The single and double precision
  floating point types are type parameters \<open>'f\<close> and \<open>'d\<close>: every arithmetic
  operation, comparison and conversion the source performs on them is taken from a record
  of operations (\<open>fpu\<close>), so that a theorem stated for every such record holds for
  whatever IEEE-754 arithmetic the machine implements; where a result depends on what the
  arithmetic makes of zero, infinities and NaN, the record is \<open>ieeeOps\<close>, over the values
  of an IEEE-754 format. A run-time panic (an index out of range) and the two
  errors \<^verbatim>\<open>ValidateQuad\<close> returns are values of \<open>error\<close>.
\<close>

type_synonym u8 = "8 word"
type_synonym u32 = "32 word"

datatype error = IndexOutOfRange | QuadNotPlanar | QuadNotConvex

record 'f Vertex =
  vX :: 'f
  vY :: 'f
  vZ :: 'f
  vW :: 'f
  vA :: 'f
  vR :: 'f
  vG :: 'f
  vB :: 'f
  v_flushed :: bool

record 'f Normal =
  nX :: 'f
  nY :: 'f
  nZ :: 'f
  nW :: 'f
  n_flushed :: bool

record 'f TextureCoord =
  tU :: 'f
  tV :: 'f
  tW :: 'f
  t_flushed :: bool

record 'f BoundSphere =
  center :: "'f Vertex"
  radius :: 'f

record Face =
  edges :: u8
  face_v :: "u32 list"
  face_n :: "u32 list"
  face_t :: "u32 list"
  face_uv :: "u32 list"
  materialID :: u32
  materialName :: string
  mortonCode :: u32
  complete :: bool

record 'f Material =
  m_name :: string
  diffuse :: "'f list"
  specular :: "'f list"
  ambient :: "'f list"
  transmissive :: "'f list"
  emissive :: "'f list"
  power :: 'f
  transparency :: 'f
  refractivity :: 'f
  illum :: u32
  roughness :: 'f
  metallic :: 'f
  sheen :: 'f
  clearcoat_thickness :: 'f
  clearcoat_roughness :: 'f
  aniso :: 'f
  aniso_rotation :: 'f
  texture :: string

text \<open>The package-level variables of \<^verbatim>\<open>main.go\<close>, as one state record.\<close>

record 'f Store =
  vertices :: "'f Vertex list"
  normals :: "'f Normal list"
  textureCoords :: "'f TextureCoord list"
  faces :: "Face list"
  materials :: "'f Material list"
  materialMap :: "string \<rightharpoonup> u32"
  boundSphere :: "'f BoundSphere"
  vertexType :: u32

section \<open>Quad triangulation\<close>

text \<open>
  \<^verbatim>\<open>RemoveAtIndex(s, index)\<close> is \<^verbatim>\<open>slices.Delete(s, index, index+1)\<close>, which panics
  when \<^verbatim>\<open>index+1 > len(s)\<close>.
\<close>

definition RemoveAtIndex :: "'a list \<Rightarrow> nat \<Rightarrow> error + 'a list" where
  "RemoveAtIndex s index =
     (if index + 1 \<le> length s then Inr (take index s @ drop (index + 1) s)
      else Inl IndexOutOfRange)"

text \<open>
  The three reads \<^verbatim>\<open>s[0]\<close>, \<^verbatim>\<open>s[2]\<close>, \<^verbatim>\<open>s[3]\<close> that fill a corner array of the new
  face; the read of \<^verbatim>\<open>s[3]\<close> panics on a slice shorter than four.
\<close>

definition pick023 :: "u32 list \<Rightarrow> error + u32 list" where
  "pick023 s = (if 3 < length s then Inr [s ! 0, s ! 2, s ! 3] else Inl IndexOutOfRange)"

text \<open>
  What the face \<^verbatim>\<open>faces[i]\<close> holds for a corner array after
  \<^verbatim>\<open>f.v = RemoveAtIndex(f.v, 3)\<close>, where \<^verbatim>\<open>f\<close> is the pointer \<^verbatim>\<open>&faces[i]\<close> taken by
  the caller. When \<^verbatim>\<open>append(faces, newFace)\<close> had room, \<^verbatim>\<open>f\<close> still points into the
  array and the face gets the shortened slice. When \<^verbatim>\<open>append\<close> moved the array
  (\<open>moved\<close>), \<^verbatim>\<open>f\<close> points into the old copy: the face in the new array keeps its slice
  header, of the old length, over the backing array in which \<^verbatim>\<open>slices.Delete\<close> has
  shifted the tail down and zeroed the last element.
\<close>

definition dropCorner3 :: "bool \<Rightarrow> u32 list \<Rightarrow> u32 list" where
  "dropCorner3 moved s =
     (if moved then take 3 s @ drop 4 s @ [0] else take 3 s @ drop 4 s)"

definition ConvertQuadToTriangles :: "bool \<Rightarrow> nat \<Rightarrow> Face list \<Rightarrow> error + Face list" where
  "ConvertQuadToTriangles moved i fs =
     (let f = fs ! i in
      case pick023 (face_v f) of Inl e \<Rightarrow> Inl e | Inr nv \<Rightarrow>
      case pick023 (face_n f) of Inl e \<Rightarrow> Inl e | Inr nn \<Rightarrow>
      case pick023 (face_uv f) of Inl e \<Rightarrow> Inl e | Inr nuv \<Rightarrow>
      if length (face_t f) = 4 then Inl IndexOutOfRange
      else
        let newFace = \<lparr> edges = 3, face_v = nv, face_n = nn, face_t = [], face_uv = nuv,
                         materialID = materialID f, materialName = materialName f,
                         mortonCode = 0, complete = False \<rparr>;
            f' = f \<lparr> edges := 3,
                    face_v := dropCorner3 moved (face_v f),
                    face_n := dropCorner3 moved (face_n f),
                    face_uv := dropCorner3 moved (face_uv f) \<rparr>
        in Inr (fs [i := f'] @ [newFace]))"

text \<open>The quad \<^verbatim>\<open>f 1 2 3 4\<close> of a mesh without normals and texture coordinates.\<close>

definition bareQuad :: Face where
  "bareQuad = \<lparr> edges = 4, face_v = [0, 1, 2, 3], face_n = [], face_t = [], face_uv = [],
                materialID = 0, materialName = [], mortonCode = 0, complete = False \<rparr>"

section \<open>Binary encoder\<close>

text \<open>
  \<^verbatim>\<open>binary.Write\<close> of a 32-bit value emits its four bytes in the selected byte order; a
  \<^verbatim>\<open>float32\<close> is written as its IEEE-754 bit pattern, which the parameter \<open>bits\<close>
  (\<^verbatim>\<open>math.Float32bits\<close>) gives.
\<close>

definition put32 :: "bool \<Rightarrow> u32 \<Rightarrow> u8 list" where
  "put32 le w =
     (let bs = [ucast w, ucast (drop_bit 8 w), ucast (drop_bit 16 w), ucast (drop_bit 24 w)]
      in if le then bs else rev bs)"

definition putF :: "bool \<Rightarrow> ('f \<Rightarrow> u32) \<Rightarrow> 'f \<Rightarrow> u8 list" where
  "putF le bits x = put32 le (bits x)"

text \<open>
  The loop \<^verbatim>\<open>for j := 0; j < int(faces[i].edges); j++ { binary.Write(..., s[j]) }\<close>: it reads
  \<^verbatim>\<open>s[0]\<close> .. \<^verbatim>\<open>s[edges-1]\<close>, and panics when the slice is shorter than \<^verbatim>\<open>edges\<close>.
\<close>

definition putCorners :: "bool \<Rightarrow> u8 \<Rightarrow> u32 list \<Rightarrow> error + u8 list" where
  "putCorners le e s =
     (if unat e \<le> length s then Inr (concat (map (put32 le) (take (unat e) s)))
      else Inl IndexOutOfRange)"

definition putFace :: "bool \<Rightarrow> Face \<Rightarrow> error + u8 list" where
  "putFace le f =
     (case putCorners le (edges f) (face_v f) of Inl e \<Rightarrow> Inl e | Inr bv \<Rightarrow>
      case putCorners le (edges f) (face_n f) of Inl e \<Rightarrow> Inl e | Inr bn \<Rightarrow>
      case putCorners le (edges f) (face_uv f) of Inl e \<Rightarrow> Inl e | Inr buv \<Rightarrow>
      Inr ([edges f] @ bv @ bn @ buv @ put32 le (materialID f)))"

fun putFaces :: "bool \<Rightarrow> Face list \<Rightarrow> error + u8 list" where
  "putFaces le [] = Inr []"
| "putFaces le (f # fs) =
     (case putFace le f of Inl e \<Rightarrow> Inl e | Inr b \<Rightarrow>
      case putFaces le fs of Inl e \<Rightarrow> Inl e | Inr bs \<Rightarrow> Inr (b @ bs))"

definition putVertex :: "bool \<Rightarrow> ('f \<Rightarrow> u32) \<Rightarrow> u32 \<Rightarrow> 'f Vertex \<Rightarrow> u8 list" where
  "putVertex le bits vtype p =
     putF le bits (vX p) @ putF le bits (vY p) @ putF le bits (vZ p) @
     (if vtype = 1
      then putF le bits (vA p) @ putF le bits (vR p) @ putF le bits (vG p) @ putF le bits (vB p)
      else [])"

definition putNormal :: "bool \<Rightarrow> ('f \<Rightarrow> u32) \<Rightarrow> 'f Normal \<Rightarrow> u8 list" where
  "putNormal le bits p = putF le bits (nX p) @ putF le bits (nY p) @ putF le bits (nZ p)"

definition putTextureCoord :: "bool \<Rightarrow> ('f \<Rightarrow> u32) \<Rightarrow> 'f TextureCoord \<Rightarrow> u8 list" where
  "putTextureCoord le bits p = putF le bits (tU p) @ putF le bits (tV p)"

definition putMaterial :: "bool \<Rightarrow> ('f \<Rightarrow> u32) \<Rightarrow> 'f Material \<Rightarrow> u8 list" where
  "putMaterial le bits m =
     concat (map (putF le bits) (diffuse m)) @ concat (map (putF le bits) (specular m)) @
     concat (map (putF le bits) (ambient m)) @ concat (map (putF le bits) (transmissive m)) @
     concat (map (putF le bits) (emissive m)) @
     putF le bits (power m) @ putF le bits (transparency m) @ putF le bits (refractivity m) @
     put32 le (illum m) @
     putF le bits (roughness m) @ putF le bits (metallic m) @ putF le bits (sheen m) @
     putF le bits (clearcoat_thickness m) @ putF le bits (clearcoat_roughness m) @
     putF le bits (aniso m) @ putF le bits (aniso_rotation m) @
     put32 le (of_nat (length (texture m))) @ map (\<lambda>c. of_nat (of_char c)) (texture m)"

definition magic :: "u8 list" where
  "magic = [0x4D, 0x53, 0x48, 0x58]"

text \<open>
  \<^verbatim>\<open>WriteOutput\<close>: the bytes handed to the buffered writer, or the panic that ends the
  process before the writer is flushed.
\<close>

definition WriteOutput :: "bool \<Rightarrow> ('f \<Rightarrow> u32) \<Rightarrow> 'f Store \<Rightarrow> error + u8 list" where
  "WriteOutput le bits s =
     (let header =
            magic @ put32 le 1 @
            put32 le (of_nat (length (vertices s))) @
            put32 le (of_nat (length (normals s))) @
            put32 le 0 @
            put32 le (of_nat (length (textureCoords s))) @
            put32 le (of_nat (length (faces s))) @
            put32 le (of_nat (length (materials s))) @
            put32 le (vertexType s) @
            putF le bits (vX (center (boundSphere s))) @
            putF le bits (vY (center (boundSphere s))) @
            putF le bits (vZ (center (boundSphere s))) @
            putF le bits (radius (boundSphere s));
          attrs =
            concat (map (putVertex le bits (vertexType s)) (vertices s)) @
            concat (map (putNormal le bits) (normals s)) @
            concat (map (putTextureCoord le bits) (textureCoords s))
      in case putFaces le (faces s) of
           Inl e \<Rightarrow> Inl e
         | Inr fb \<Rightarrow> Inr (header @ attrs @ fb @ concat (map (putMaterial le bits) (materials s))))"

text \<open>
  A store of three vertices (given by their bit patterns), no normals, no texture
  coordinates, and the one triangle \<^verbatim>\<open>f 1 2 3\<close>.
\<close>

definition bareVertex :: "u32 \<Rightarrow> u32 \<Rightarrow> u32 \<Rightarrow> u32 Vertex" where
  "bareVertex x y z =
     \<lparr> vX = x, vY = y, vZ = z, vW = 0x3F800000, vA = 0x3F800000, vR = 0x3F800000,
       vG = 0x3F800000, vB = 0x3F800000, v_flushed = False \<rparr>"

definition bareTriangle :: Face where
  "bareTriangle = \<lparr> edges = 3, face_v = [0, 1, 2], face_n = [], face_t = [], face_uv = [],
                    materialID = 0, materialName = [], mortonCode = 0, complete = False \<rparr>"

definition bareStore :: "u32 Store" where
  "bareStore =
     \<lparr> vertices = [bareVertex 0 0 0, bareVertex 0x3F800000 0 0, bareVertex 0 0x3F800000 0],
       normals = [], textureCoords = [], faces = [bareTriangle], materials = [],
       materialMap = Map.empty,
       boundSphere = \<lparr> center = bareVertex 0 0 0, radius = 0x3F800000 \<rparr>,
       vertexType = 0 \<rparr>"

section \<open>Floating point operations\<close>

text \<open>
  The operations of the machine on \<^verbatim>\<open>float32\<close> (\<open>'f\<close>) and \<^verbatim>\<open>float64\<close> (\<open>'d\<close>) that the
  source uses: arithmetic, \<^verbatim>\<open>math.Sqrt\<close>, \<^verbatim>\<open>math.Abs\<close>, the comparison \<^verbatim>\<open><\<close> (the source's
  \<^verbatim>\<open>a > b\<close> is \<open>lt64 b a\<close>), the conversions between the two types, from \<^verbatim>\<open>uint8\<close> and
  to \<^verbatim>\<open>uint32\<close>, and the conversion of a decimal constant of the source text.
\<close>

record ('f, 'd) fpu =
  add32 :: "'f \<Rightarrow> 'f \<Rightarrow> 'f"
  sub32 :: "'f \<Rightarrow> 'f \<Rightarrow> 'f"
  mul32 :: "'f \<Rightarrow> 'f \<Rightarrow> 'f"
  div32 :: "'f \<Rightarrow> 'f \<Rightarrow> 'f"
  lit32 :: "rat \<Rightarrow> 'f"
  to64 :: "'f \<Rightarrow> 'd"
  to32 :: "'d \<Rightarrow> 'f"
  of_u8 :: "u8 \<Rightarrow> 'f"
  to_u32 :: "'f \<Rightarrow> u32"
  add64 :: "'d \<Rightarrow> 'd \<Rightarrow> 'd"
  sub64 :: "'d \<Rightarrow> 'd \<Rightarrow> 'd"
  mul64 :: "'d \<Rightarrow> 'd \<Rightarrow> 'd"
  div64 :: "'d \<Rightarrow> 'd \<Rightarrow> 'd"
  sqrt64 :: "'d \<Rightarrow> 'd"
  abs64 :: "'d \<Rightarrow> 'd"
  lt64 :: "'d \<Rightarrow> 'd \<Rightarrow> bool"
  lit64 :: "rat \<Rightarrow> 'd"

section \<open>Quad validation\<close>

definition crossProduct ::
  "('f, 'd) fpu \<Rightarrow> 'd \<Rightarrow> 'd \<Rightarrow> 'd \<Rightarrow> 'd \<Rightarrow> 'd \<Rightarrow> 'd \<Rightarrow> 'd \<times> 'd \<times> 'd" where
  "crossProduct ops ax ay az bx by bz =
     (sub64 ops (mul64 ops ay bz) (mul64 ops az by),
      sub64 ops (mul64 ops az bx) (mul64 ops ax bz),
      sub64 ops (mul64 ops ax by) (mul64 ops ay bx))"

definition dotProduct ::
  "('f, 'd) fpu \<Rightarrow> 'd \<Rightarrow> 'd \<Rightarrow> 'd \<Rightarrow> 'd \<Rightarrow> 'd \<Rightarrow> 'd \<Rightarrow> 'd" where
  "dotProduct ops ax ay az bx by bz =
     add64 ops (add64 ops (mul64 ops ax bx) (mul64 ops ay by)) (mul64 ops az bz)"

definition normalize :: "('f, 'd) fpu \<Rightarrow> 'f Normal \<Rightarrow> 'f Normal" where
  "normalize ops p =
     (let len = to32 ops (sqrt64 ops (to64 ops
                  (add32 ops (add32 ops (mul32 ops (nX p) (nX p)) (mul32 ops (nY p) (nY p)))
                             (mul32 ops (nZ p) (nZ p)))))
      in p \<lparr> nX := div32 ops (nX p) len, nY := div32 ops (nY p) len, nZ := div32 ops (nZ p) len \<rparr>)"

definition crossProductZ :: "('f, 'd) fpu \<Rightarrow> 'd \<Rightarrow> 'd \<Rightarrow> 'd \<Rightarrow> 'd \<Rightarrow> 'd" where
  "crossProductZ ops ax ay bx by = sub64 ops (mul64 ops ax by) (mul64 ops ay bx)"

definition isConvex ::
  "('f, 'd) fpu \<Rightarrow> 'd \<Rightarrow> 'd \<Rightarrow> 'd \<Rightarrow> 'd \<Rightarrow> 'd \<Rightarrow> 'd \<Rightarrow> 'd \<Rightarrow> 'd \<Rightarrow> bool" where
  "isConvex ops ax ay bx by cx cy dx dy =
     (let v1x = sub64 ops bx ax; v1y = sub64 ops by ay;
          v2x = sub64 ops cx bx; v2y = sub64 ops cy by;
          v3x = sub64 ops dx cx; v3y = sub64 ops dy cy;
          v4x = sub64 ops ax dx; v4y = sub64 ops ay dy;
          c1 = crossProductZ ops v1x v1y v2x v2y;
          c2 = crossProductZ ops v2x v2y v3x v3y;
          c3 = crossProductZ ops v3x v3y v4x v4y;
          c4 = crossProductZ ops v4x v4y v1x v1y;
          z = lit64 ops 0
      in (lt64 ops z c1 \<and> lt64 ops z c2 \<and> lt64 ops z c3 \<and> lt64 ops z c4) \<or>
         (lt64 ops c1 z \<and> lt64 ops c2 z \<and> lt64 ops c3 z \<and> lt64 ops c4 z))"

text \<open>
  \<^verbatim>\<open>vertices[s[k]]\<close>: the read panics when \<^verbatim>\<open>k\<close> is not an index of \<^verbatim>\<open>s\<close> or \<^verbatim>\<open>s[k]\<close>
  is not an index of the vertex array.
\<close>

definition vertexAt :: "'f Vertex list \<Rightarrow> u32 list \<Rightarrow> nat \<Rightarrow> error + 'f Vertex" where
  "vertexAt vs s k =
     (if k < length s \<and> unat (s ! k) < length vs then Inr (vs ! unat (s ! k))
      else Inl IndexOutOfRange)"

text \<open>
  The dot product of the two unit normals that \<^verbatim>\<open>ValidateQuad\<close> computes: the edge
  vectors are differences in single precision, converted to double precision.
\<close>

definition quadDot ::
  "('f, 'd) fpu \<Rightarrow> 'f Vertex \<Rightarrow> 'f Vertex \<Rightarrow> 'f Vertex \<Rightarrow> 'f Vertex \<Rightarrow> 'd" where
  "quadDot ops p0 p1 p2 p3 =
     (let abx = to64 ops (sub32 ops (vX p1) (vX p0));
          aby = to64 ops (sub32 ops (vY p1) (vY p0));
          abz = to64 ops (sub32 ops (vZ p1) (vZ p0));
          acx = to64 ops (sub32 ops (vX p2) (vX p0));
          acy = to64 ops (sub32 ops (vY p2) (vY p0));
          acz = to64 ops (sub32 ops (vZ p2) (vZ p0));
          adx = to64 ops (sub32 ops (vX p3) (vX p0));
          ady = to64 ops (sub32 ops (vY p3) (vY p0));
          adz = to64 ops (sub32 ops (vZ p3) (vZ p0))
      in case crossProduct ops abx aby abz acx acy acz of (nx1, ny1, nz1) \<Rightarrow>
         case crossProduct ops acx acy acz adx ady adz of (nx2, ny2, nz2) \<Rightarrow>
         let len1 = sqrt64 ops (add64 ops (add64 ops (mul64 ops nx1 nx1) (mul64 ops ny1 ny1))
                                          (mul64 ops nz1 nz1));
             len2 = sqrt64 ops (add64 ops (add64 ops (mul64 ops nx2 nx2) (mul64 ops ny2 ny2))
                                          (mul64 ops nz2 nz2))
         in dotProduct ops (div64 ops nx1 len1) (div64 ops ny1 len1) (div64 ops nz1 len1)
                           (div64 ops nx2 len2) (div64 ops ny2 len2) (div64 ops nz2 len2))"

definition ValidateQuad :: "('f, 'd) fpu \<Rightarrow> 'f Vertex list \<Rightarrow> Face \<Rightarrow> error + unit" where
  "ValidateQuad ops vs f =
     (case vertexAt vs (face_v f) 0 of Inl e \<Rightarrow> Inl e | Inr p0 \<Rightarrow>
      case vertexAt vs (face_v f) 1 of Inl e \<Rightarrow> Inl e | Inr p1 \<Rightarrow>
      case vertexAt vs (face_v f) 2 of Inl e \<Rightarrow> Inl e | Inr p2 \<Rightarrow>
      case vertexAt vs (face_v f) 3 of Inl e \<Rightarrow> Inl e | Inr p3 \<Rightarrow>
      if lt64 ops (abs64 ops (quadDot ops p0 p1 p2 p3)) (lit64 ops (999 / 1000))
      then Inl QuadNotPlanar
      else if \<not> isConvex ops (to64 ops (vX p0)) (to64 ops (vY p0))
                             (to64 ops (vX p1)) (to64 ops (vY p1))
                             (to64 ops (vX p2)) (to64 ops (vY p2))
                             (to64 ops (vX p3)) (to64 ops (vY p3))
      then Inl QuadNotConvex
      else Inr ())"

text \<open>
  \<^verbatim>\<open>FakeQuadCheck\<close> counts the distinct vertex indices of the four corners; the result
  says whether the diagnostic line is printed. Reading \<^verbatim>\<open>f.v[3]\<close> panics on a shorter
  slice.
\<close>

definition FakeQuadCheck :: "Face \<Rightarrow> error + bool" where
  "FakeQuadCheck f =
     (if 3 < length (face_v f) then Inr (card (set (take 4 (face_v f))) = 3)
      else Inl IndexOutOfRange)"

section \<open>The quad stage of \<^verbatim>\<open>main\<close>\<close>

lemma Convert_length:
  "ConvertQuadToTriangles moved i fs = Inr fs' \<Longrightarrow> length fs' = Suc (length fs)"
  by (auto simp: ConvertQuadToTriangles_def Let_def split: sum.splits if_splits)

lemma Convert_quads_after:
  "ConvertQuadToTriangles moved i fs = Inr fs' \<Longrightarrow> i < length fs \<Longrightarrow>
   filter (\<lambda>f. edges f = 4) (drop (Suc i) fs') = filter (\<lambda>f. edges f = 4) (drop (Suc i) fs)"
  by (auto simp: ConvertQuadToTriangles_def Let_def drop_update_cancel split: sum.splits if_splits)

lemma quads_drop_step:
  "i < length fs \<Longrightarrow>
   length (filter P (drop i fs)) = (if P (fs ! i) then 1 else 0) + length (filter P (drop (Suc i) fs))"
  by (simp add: Cons_nth_drop_Suc [symmetric])

lemma Convert_measure:
  "ConvertQuadToTriangles moved i fs = Inr fs' \<Longrightarrow> i < length fs \<Longrightarrow> edges (fs ! i) = 4 \<Longrightarrow>
   length (filter (\<lambda>f. edges f = 4) (drop (Suc i) fs')) + (length fs' - Suc i)
     < length (filter (\<lambda>f. edges f = 4) (drop i fs)) + (length fs - i)"
  using Convert_length [of moved i fs fs'] Convert_quads_after [of moved i fs fs']
  by (simp add: quads_drop_step)

text \<open>
  The loop \<^verbatim>\<open>for i < len(faces)\<close> of \<^verbatim>\<open>main\<close>, over a face array that grows while it
  runs. \<open>q\<close> is the option \<^verbatim>\<open>-q\<close>. \<open>full n\<close> says whether a face array of length \<open>n\<close>
  has no spare capacity, so that \<^verbatim>\<open>append\<close> moves it. A validation error under
  \<^verbatim>\<open>-q 1\<close> ends the run (the error is the result); under \<^verbatim>\<open>-q 2\<close> the quad is
  triangulated. The loop terminates because every appended face is a triangle.
\<close>

function quadLoop ::
  "(nat \<Rightarrow> bool) \<Rightarrow> ('f, 'd) fpu \<Rightarrow> int \<Rightarrow> 'f Vertex list \<Rightarrow> nat \<Rightarrow> Face list \<Rightarrow> error + Face list" where
  "quadLoop full ops q vs i fs =
     (if i < length fs then
        case (if edges (fs ! i) = 4 \<and> q \<noteq> 3 then FakeQuadCheck (fs ! i) else Inr False) of
          Inl e \<Rightarrow> Inl e
        | Inr _ \<Rightarrow>
            if edges (fs ! i) = 4 \<and> q = 3 then
              (case ConvertQuadToTriangles (full (length fs)) i fs of
                 Inl e \<Rightarrow> Inl e
               | Inr fs' \<Rightarrow> quadLoop full ops q vs (i + 1) fs')
            else if edges (fs ! i) = 4 \<and> 0 < q then
              (case ValidateQuad ops vs (fs ! i) of
                 Inr _ \<Rightarrow> quadLoop full ops q vs (i + 1) fs
               | Inl IndexOutOfRange \<Rightarrow> Inl IndexOutOfRange
               | Inl err \<Rightarrow>
                   if q = 1 then Inl err
                   else if q = 2 then
                     (case ConvertQuadToTriangles (full (length fs)) i fs of
                        Inl e \<Rightarrow> Inl e
                      | Inr fs' \<Rightarrow> quadLoop full ops q vs (i + 1) fs')
                   else quadLoop full ops q vs (i + 1) fs)
            else quadLoop full ops q vs (i + 1) fs
      else Inr fs)"
  by pat_completeness auto
termination
  by (relation "measure (\<lambda>(full, ops, q, vs, i, fs).
          length (filter (\<lambda>f. edges f = 4) (drop i fs)) + (length fs - i))")
     (auto simp: quads_drop_step dest: Convert_measure)

declare quadLoop.simps [simp del]

definition quadStage ::
  "(nat \<Rightarrow> bool) \<Rightarrow> ('f, 'd) fpu \<Rightarrow> int \<Rightarrow> 'f Store \<Rightarrow> error + 'f Store" where
  "quadStage full ops q s =
     (case quadLoop full ops q (vertices s) 0 (faces s) of
        Inl e \<Rightarrow> Inl e
      | Inr fs \<Rightarrow> Inr (s \<lparr> faces := fs \<rparr>))"

section \<open>Loops over index ranges and corner arrays\<close>

text \<open>
  \<open>iter body ks s\<close> runs \<open>body k\<close> for each \<open>k\<close> of \<open>ks\<close> in order, threading the
  state, and stops at the first panic: \<^verbatim>\<open>for k := a; k < b; k++\<close> over a bound that the
  body does not change is \<open>iter body [a..<b]\<close>.
\<close>

fun iter :: "('k \<Rightarrow> 's \<Rightarrow> error + 's) \<Rightarrow> 'k list \<Rightarrow> 's \<Rightarrow> error + 's" where
  "iter body [] s = Inr s"
| "iter body (k # ks) s = (case body k s of Inl e \<Rightarrow> Inl e | Inr s' \<Rightarrow> iter body ks s')"

fun mapE :: "('a \<Rightarrow> error + 'b) \<Rightarrow> 'a list \<Rightarrow> error + 'b list" where
  "mapE g [] = Inr []"
| "mapE g (x # xs) =
     (case g x of Inl e \<Rightarrow> Inl e | Inr y \<Rightarrow>
      case mapE g xs of Inl e \<Rightarrow> Inl e | Inr ys \<Rightarrow> Inr (y # ys))"

text \<open>
  The three attribute classes. The source repeats each pass three times, once per class,
  over the fields \<^verbatim>\<open>v\<close>, \<^verbatim>\<open>n\<close> and \<^verbatim>\<open>uv\<close> of a face; the model writes the pass once
  over the selected field.
\<close>

datatype attr = VertexIdx | NormalIdx | UvIdx

fun getIdx :: "attr \<Rightarrow> Face \<Rightarrow> u32 list" where
  "getIdx VertexIdx f = face_v f"
| "getIdx NormalIdx f = face_n f"
| "getIdx UvIdx f = face_uv f"

fun putIdx :: "attr \<Rightarrow> u32 list \<Rightarrow> Face \<Rightarrow> Face" where
  "putIdx VertexIdx s f = f \<lparr> face_v := s \<rparr>"
| "putIdx NormalIdx s f = f \<lparr> face_n := s \<rparr>"
| "putIdx UvIdx s f = f \<lparr> face_uv := s \<rparr>"

text \<open>
  The loop \<^verbatim>\<open>for l := 0; l < int(face.edges); l++ { if face.v[l] ... { face.v[l] = ... } }\<close>:
  it replaces each of the first \<^verbatim>\<open>edges\<close> entries \<open>x\<close> by \<open>g x\<close>, leaves the entries
  beyond untouched, and panics when the slice is shorter than \<^verbatim>\<open>edges\<close>.
\<close>

definition rewriteCorners :: "attr \<Rightarrow> (u32 \<Rightarrow> u32) \<Rightarrow> Face \<Rightarrow> error + Face" where
  "rewriteCorners a g f =
     (let s = getIdx a f; e = unat (edges f)
      in if e \<le> length s then Inr (putIdx a (map g (take e s) @ drop e s) f)
         else Inl IndexOutOfRange)"

section \<open>Attribute deduplication\<close>

definition vertexNear :: "('f, 'd) fpu \<Rightarrow> 'd \<Rightarrow> 'f Vertex \<Rightarrow> 'f Vertex \<Rightarrow> bool" where
  "vertexNear ops vT p q =
     (let dx = sub32 ops (vX p) (vX q);
          dy = sub32 ops (vY p) (vY q);
          dz = sub32 ops (vZ p) (vZ q);
          d = sqrt64 ops (to64 ops
                (add32 ops (add32 ops (mul32 ops dx dx) (mul32 ops dy dy)) (mul32 ops dz dz)))
      in lt64 ops d vT)"

definition normalNear :: "('f, 'd) fpu \<Rightarrow> 'd \<Rightarrow> 'f Normal \<Rightarrow> 'f Normal \<Rightarrow> bool" where
  "normalNear ops nT p q =
     (let dx = abs64 ops (to64 ops (sub32 ops (nX p) (nX q)));
          dy = abs64 ops (to64 ops (sub32 ops (nY p) (nY q)));
          dz = abs64 ops (to64 ops (sub32 ops (nZ p) (nZ q)))
      in lt64 ops dx nT \<and> lt64 ops dy nT \<and> lt64 ops dz nT)"

definition uvNear :: "('f, 'd) fpu \<Rightarrow> 'd \<Rightarrow> 'f TextureCoord \<Rightarrow> 'f TextureCoord \<Rightarrow> bool" where
  "uvNear ops uvT p q =
     (let du = abs64 ops (to64 ops (sub32 ops (tU p) (tU q)));
          dv = abs64 ops (to64 ops (sub32 ops (tV p) (tV q)))
      in lt64 ops du uvT \<and> lt64 ops dv uvT)"

text \<open>
  The body of the loop over \<^verbatim>\<open>j\<close>: when entry \<open>j\<close> is near entry \<open>i\<close>, every corner
  that refers to \<open>j\<close> is rewritten to \<open>i\<close>, entry \<open>j\<close> is marked flushed and the
  counter is incremented. The state is the attribute array, the faces and the counter.
\<close>

definition markPair ::
  "attr \<Rightarrow> ('a \<Rightarrow> 'a \<Rightarrow> bool) \<Rightarrow> ('a \<Rightarrow> 'a) \<Rightarrow> nat \<Rightarrow> nat \<Rightarrow>
   'a list \<times> Face list \<times> nat \<Rightarrow> error + 'a list \<times> Face list \<times> nat" where
  "markPair a near setf i j = (\<lambda>(xs, fs, d).
     if near (xs ! i) (xs ! j) then
       (case mapE (rewriteCorners a (\<lambda>x. if x = of_nat j then of_nat i else x)) fs of
          Inl e \<Rightarrow> Inl e
        | Inr fs' \<Rightarrow> Inr (xs [j := setf (xs ! j)], fs', d + 1))
     else Inr (xs, fs, d))"

text \<open>
  The marking pass. \<open>skip\<close> is the test that makes the loop over \<^verbatim>\<open>i\<close> \<^verbatim>\<open>continue\<close>:
  \<^verbatim>\<open>!vertices[i].flushed\<close> for vertices, \<^verbatim>\<open>normals[i].flushed\<close> and
  \<^verbatim>\<open>textureCoords[i].flushed\<close> for the other two classes.
\<close>

definition markPhase ::
  "attr \<Rightarrow> ('a \<Rightarrow> bool) \<Rightarrow> ('a \<Rightarrow> 'a \<Rightarrow> bool) \<Rightarrow> ('a \<Rightarrow> 'a) \<Rightarrow> 'a list \<Rightarrow> Face list \<Rightarrow>
   error + 'a list \<times> Face list \<times> nat" where
  "markPhase a skip near setf xs fs =
     iter (\<lambda>i (xs, fs, d).
             if skip (xs ! i) then Inr (xs, fs, d)
             else iter (markPair a near setf i) [i + 1 ..< length xs] (xs, fs, d))
          [0 ..< length xs] (xs, fs, 0)"

lemma RemoveAtIndex_length:
  "RemoveAtIndex xs i = Inr xs' \<Longrightarrow> i < length xs \<Longrightarrow> length xs' - i < length xs - i"
  by (auto simp: RemoveAtIndex_def split: if_splits)

text \<open>
  The removal pass: \<^verbatim>\<open>for i := 0; i < len(xs); i++\<close>, where removing entry \<open>i\<close> is
  followed by \<^verbatim>\<open>i--\<close>, so that the loop looks at position \<open>i\<close> again.
\<close>

function removeFlushed ::
  "attr \<Rightarrow> ('a \<Rightarrow> bool) \<Rightarrow> nat \<Rightarrow> 'a list \<Rightarrow> Face list \<Rightarrow> error + 'a list \<times> Face list" where
  "removeFlushed a isf i xs fs =
     (if i < length xs then
        if isf (xs ! i) then
          (case RemoveAtIndex xs i of
             Inl e \<Rightarrow> Inl e
           | Inr xs' \<Rightarrow>
               (case mapE (rewriteCorners a (\<lambda>x. if of_nat i < x then x - 1 else x)) fs of
                  Inl e \<Rightarrow> Inl e
                | Inr fs' \<Rightarrow> removeFlushed a isf i xs' fs'))
        else removeFlushed a isf (i + 1) xs fs
      else Inr (xs, fs))"
  by pat_completeness auto
termination
  by (relation "measure (\<lambda>(a, isf, i, xs, fs). length xs - i)")
     (auto dest: RemoveAtIndex_length)

declare removeFlushed.simps [simp del]

text \<open>
  \<^verbatim>\<open>DeDupe(vT, nT, uvT)\<close>: the result is the store and the three counters that are
  printed.
\<close>

definition DeDupe ::
  "('f, 'd) fpu \<Rightarrow> 'd \<Rightarrow> 'd \<Rightarrow> 'd \<Rightarrow> 'f Store \<Rightarrow> error + 'f Store \<times> nat \<times> nat \<times> nat" where
  "DeDupe ops vT nT uvT s =
     (case markPhase VertexIdx (\<lambda>p. \<not> v_flushed p) (vertexNear ops vT)
             (\<lambda>p. p \<lparr> v_flushed := True \<rparr>) (vertices s) (faces s) of
        Inl e \<Rightarrow> Inl e
      | Inr (vs1, fs1, dupeV) \<Rightarrow>
     (case removeFlushed VertexIdx v_flushed 0 vs1 fs1 of
        Inl e \<Rightarrow> Inl e
      | Inr (vs2, fs2) \<Rightarrow>
     (case markPhase NormalIdx n_flushed (normalNear ops nT)
             (\<lambda>p. p \<lparr> n_flushed := True \<rparr>) (normals s) fs2 of
        Inl e \<Rightarrow> Inl e
      | Inr (ns1, fs3, dupeN) \<Rightarrow>
     (case removeFlushed NormalIdx n_flushed 0 ns1 fs3 of
        Inl e \<Rightarrow> Inl e
      | Inr (ns2, fs4) \<Rightarrow>
     (case markPhase UvIdx t_flushed (uvNear ops uvT)
             (\<lambda>p. p \<lparr> t_flushed := True \<rparr>) (textureCoords s) fs4 of
        Inl e \<Rightarrow> Inl e
      | Inr (ts1, fs5, dupeU) \<Rightarrow>
     (case removeFlushed UvIdx t_flushed 0 ts1 fs5 of
        Inl e \<Rightarrow> Inl e
      | Inr (ts2, fs6) \<Rightarrow>
          Inr (s \<lparr> vertices := vs2, normals := ns2, textureCoords := ts2, faces := fs6 \<rparr>,
               dupeV, dupeN, dupeU)))))))"

section \<open>Cache-locality optimiser\<close>

definition interleaveBits :: "u32 \<Rightarrow> u32" where
  "interleaveBits x0 =
     (let x1 = (x0 OR push_bit 16 x0) AND 0x030000FF;
          x2 = (x1 OR push_bit 8 x1) AND 0x0300F00F;
          x3 = (x2 OR push_bit 4 x2) AND 0x030C30C3;
          x4 = (x3 OR push_bit 2 x3) AND 0x09249249
      in x4)"

definition Morton3D :: "u32 \<Rightarrow> u32 \<Rightarrow> u32 \<Rightarrow> u32" where
  "Morton3D x y z =
     interleaveBits x OR push_bit 1 (interleaveBits y) OR push_bit 2 (interleaveBits z)"

text \<open>The sum of the corner positions of a face, accumulated in single precision.\<close>

definition sumCorners ::
  "('f, 'd) fpu \<Rightarrow> 'f Vertex list \<Rightarrow> Face \<Rightarrow> error + 'f \<times> 'f \<times> 'f" where
  "sumCorners ops vs f =
     iter (\<lambda>j (cx, cy, cz).
             case vertexAt vs (face_v f) j of
               Inl e \<Rightarrow> Inl e
             | Inr p \<Rightarrow> Inr (add32 ops cx (vX p), add32 ops cy (vY p), add32 ops cz (vZ p)))
          [0 ..< unat (edges f)] (lit32 ops 0, lit32 ops 0, lit32 ops 0)"

definition extentsOf :: "('f, 'd) fpu \<Rightarrow> 'f BoundSphere \<Rightarrow> 'f list" where
  "extentsOf ops b =
     [sub32 ops (vX (center b)) (radius b), sub32 ops (vY (center b)) (radius b),
      sub32 ops (vZ (center b)) (radius b),
      add32 ops (vX (center b)) (radius b), add32 ops (vY (center b)) (radius b),
      add32 ops (vZ (center b)) (radius b)]"

definition quantize :: "('f, 'd) fpu \<Rightarrow> 'f \<Rightarrow> 'f \<Rightarrow> 'f \<Rightarrow> 'f \<Rightarrow> u32" where
  "quantize ops n lo hi c0 =
     (let c1 = div32 ops c0 n;
          c2 = div32 ops (sub32 ops c1 lo) (sub32 ops hi lo)
      in to_u32 ops (mul32 ops c2 (lit32 ops 1024)))"

definition faceMorton ::
  "('f, 'd) fpu \<Rightarrow> 'f list \<Rightarrow> 'f Vertex list \<Rightarrow> Face \<Rightarrow> error + Face" where
  "faceMorton ops ext vs f =
     (case sumCorners ops vs f of
        Inl e \<Rightarrow> Inl e
      | Inr (cx, cy, cz) \<Rightarrow>
          let n = of_u8 ops (edges f);
              icx = quantize ops n (ext ! 0) (ext ! 3) cx;
              icy = quantize ops n (ext ! 1) (ext ! 4) cy;
              icz = quantize ops n (ext ! 2) (ext ! 5) cz
          in Inr (f \<lparr> mortonCode := Morton3D icx icy icz \<rparr>))"

text \<open>The comparison function handed to \<^verbatim>\<open>slices.SortFunc\<close>.\<close>

definition cmpMorton :: "Face \<Rightarrow> Face \<Rightarrow> int" where
  "cmpMorton a b =
     (if mortonCode a < mortonCode b then - 1
      else if mortonCode b < mortonCode a then 1
      else 0)"

text \<open>
  The lookup \<^verbatim>\<open>vertexFaceUse\<close>: for every attribute index, the faces that refer to it,
  one entry per referring corner.
\<close>

definition addUse :: "attr \<Rightarrow> Face list \<Rightarrow> nat \<Rightarrow> nat \<Rightarrow> u32 list list \<Rightarrow> error + u32 list list" where
  "addUse a fs i j use =
     (let s = getIdx a (fs ! i)
      in if j < length s \<and> unat (s ! j) < length use
         then Inr (use [unat (s ! j) := use ! unat (s ! j) @ [of_nat i]])
         else Inl IndexOutOfRange)"

definition buildUse :: "attr \<Rightarrow> Face list \<Rightarrow> nat \<Rightarrow> error + u32 list list" where
  "buildUse a fs n =
     iter (\<lambda>i use. iter (addUse a fs i) [0 ..< unat (edges (fs ! i))] use)
          [0 ..< length fs] (replicate n [])"

record 'a reindexState =
  r_faces :: "Face list"
  r_old :: "'a list"
  r_use :: "u32 list list"
  r_new :: "'a list"
  r_cur :: nat

text \<open>
  The loop over \<^verbatim>\<open>k\<close>: every face of the lookup entry that is not complete has its corners
  equal to \<open>vidx\<close> set to \<^verbatim>\<open>uint32(curIndex)\<close>. The local \<^verbatim>\<open>face\<close> is a copy of the
  struct, but its slice shares the backing array with \<^verbatim>\<open>faces[...]\<close>, so the write goes
  to the face in the array.
\<close>

definition remapUse :: "attr \<Rightarrow> u32 \<Rightarrow> nat \<Rightarrow> u32 list \<Rightarrow> Face list \<Rightarrow> error + Face list" where
  "remapUse a vidx cur us fs =
     iter (\<lambda>u fs.
             if unat u < length fs then
               if \<not> complete (fs ! unat u) then
                 (case rewriteCorners a (\<lambda>x. if x = vidx then of_nat cur else x) (fs ! unat u) of
                    Inl e \<Rightarrow> Inl e
                  | Inr f' \<Rightarrow> Inr (fs [unat u := f']))
               else Inr fs
             else Inl IndexOutOfRange)
          us fs"

definition visitCorner ::
  "attr \<Rightarrow> ('a \<Rightarrow> bool) \<Rightarrow> ('a \<Rightarrow> 'a) \<Rightarrow> nat \<Rightarrow> nat \<Rightarrow> 'a reindexState \<Rightarrow> error + 'a reindexState" where
  "visitCorner a isf setf i j st =
     (let s = getIdx a (r_faces st ! i) in
      if j < length s then
        let vidx = s ! j in
        if unat vidx < length (r_old st) \<and> unat vidx < length (r_use st) then
          if \<not> isf (r_old st ! unat vidx) then
            (case remapUse a vidx (r_cur st) (r_use st ! unat vidx) (r_faces st) of
               Inl e \<Rightarrow> Inl e
             | Inr fs' \<Rightarrow>
                 Inr (st \<lparr> r_faces := fs',
                           r_use := (r_use st) [unat vidx := []],
                           r_new := r_new st @ [r_old st ! unat vidx],
                           r_old := (r_old st) [unat vidx := setf (r_old st ! unat vidx)],
                           r_cur := r_cur st + 1 \<rparr>))
          else Inr st
        else Inl IndexOutOfRange
      else Inl IndexOutOfRange)"

definition visitFace ::
  "attr \<Rightarrow> ('a \<Rightarrow> bool) \<Rightarrow> ('a \<Rightarrow> 'a) \<Rightarrow> nat \<Rightarrow> 'a reindexState \<Rightarrow> error + 'a reindexState" where
  "visitFace a isf setf i st =
     (case iter (visitCorner a isf setf i) [0 ..< unat (edges (r_faces st ! i))] st of
        Inl e \<Rightarrow> Inl e
      | Inr st' \<Rightarrow>
          Inr (st' \<lparr> r_faces := (r_faces st') [i := (r_faces st' ! i) \<lparr> complete := True \<rparr>] \<rparr>))"

text \<open>
  One rebuild pass of \<^verbatim>\<open>OptimiseMesh\<close> (the source has three, for vertices, normals and
  texture coordinates): clear the \<^verbatim>\<open>complete\<close> markers, build the lookup, walk the
  faces corner by corner, and replace the attribute array by the rebuilt one.
\<close>

definition reindex ::
  "attr \<Rightarrow> ('a \<Rightarrow> bool) \<Rightarrow> ('a \<Rightarrow> 'a) \<Rightarrow> Face list \<Rightarrow> 'a list \<Rightarrow> error + Face list \<times> 'a list" where
  "reindex a isf setf fs xs =
     (let fs0 = map (\<lambda>f. f \<lparr> complete := False \<rparr>) fs in
      case buildUse a fs0 (length xs) of
        Inl e \<Rightarrow> Inl e
      | Inr use \<Rightarrow>
          (case iter (visitFace a isf setf) [0 ..< length fs0]
                  \<lparr> r_faces = fs0, r_old = xs, r_use = use, r_new = [], r_cur = 0 \<rparr> of
             Inl e \<Rightarrow> Inl e
           | Inr st \<Rightarrow> Inr (r_faces st, r_new st)))"

text \<open>
  \<^verbatim>\<open>OptimiseMesh\<close>. \<open>sortFunc\<close> is the standard library's \<^verbatim>\<open>slices.SortFunc\<close>, which is
  not part of the program: it is a parameter, and what a theorem needs of it is a
  hypothesis of that theorem.
\<close>

definition OptimiseMesh ::
  "((Face \<Rightarrow> Face \<Rightarrow> int) \<Rightarrow> Face list \<Rightarrow> Face list) \<Rightarrow> ('f, 'd) fpu \<Rightarrow> 'f Store \<Rightarrow> error + 'f Store" where
  "OptimiseMesh sortFunc ops s =
     (case mapE (faceMorton ops (extentsOf ops (boundSphere s)) (vertices s)) (faces s) of
        Inl e \<Rightarrow> Inl e
      | Inr fs1 \<Rightarrow>
     (case reindex VertexIdx v_flushed (\<lambda>p. p \<lparr> v_flushed := True \<rparr>)
             (sortFunc cmpMorton fs1) (vertices s) of
        Inl e \<Rightarrow> Inl e
      | Inr (fs2, vs') \<Rightarrow>
     (case reindex NormalIdx n_flushed (\<lambda>p. p \<lparr> n_flushed := True \<rparr>) fs2 (normals s) of
        Inl e \<Rightarrow> Inl e
      | Inr (fs3, ns') \<Rightarrow>
     (case reindex UvIdx t_flushed (\<lambda>p. p \<lparr> t_flushed := True \<rparr>) fs3 (textureCoords s) of
        Inl e \<Rightarrow> Inl e
      | Inr (fs4, ts') \<Rightarrow>
          Inr (s \<lparr> faces := fs4, vertices := vs', normals := ns', textureCoords := ts' \<rparr>)))))"

definition skeleton :: "Face \<Rightarrow> Face" where
  "skeleton f = f \<lparr> face_v := [], face_n := [], face_uv := [] \<rparr>"

definition marked :: "('a \<Rightarrow> bool) \<Rightarrow> 'a list \<Rightarrow> 'a list \<Rightarrow> bool" where
  "marked isf xs0 xs \<longleftrightarrow> list_all2 (\<lambda>x x0. x = x0 \<or> isf x) xs xs0"

definition idealOps :: "(real, real) fpu" where
  "idealOps =
     \<lparr> add32 = (+), sub32 = (-), mul32 = (*), div32 = (/), lit32 = of_rat,
       to64 = (\<lambda>x. x), to32 = (\<lambda>x. x), of_u8 = (\<lambda>w. real (unat w)),
       to_u32 = (\<lambda>x. word_of_int \<lfloor>x\<rfloor>),
       add64 = (+), sub64 = (-), mul64 = (*), div64 = (/), sqrt64 = sqrt, abs64 = abs,
       lt64 = (<), lit64 = of_rat \<rparr>"

definition parsedVertex :: "('f, 'd) fpu \<Rightarrow> 'f \<Rightarrow> 'f \<Rightarrow> 'f \<Rightarrow> 'f Vertex" where
  "parsedVertex ops x y z =
     \<lparr> vX = x, vY = y, vZ = z, vW = lit32 ops 1, vA = lit32 ops 1, vR = lit32 ops 1,
       vG = lit32 ops 1, vB = lit32 ops 1, v_flushed = False \<rparr>"

definition parsedNormal :: "'f \<Rightarrow> 'f \<Rightarrow> 'f \<Rightarrow> 'f \<Rightarrow> 'f Normal" where
  "parsedNormal x y z w = \<lparr> nX = x, nY = y, nZ = z, nW = w, n_flushed = False \<rparr>"

definition parsedUV :: "'f \<Rightarrow> 'f \<Rightarrow> 'f \<Rightarrow> 'f TextureCoord" where
  "parsedUV u v w = \<lparr> tU = u, tV = v, tW = w, t_flushed = False \<rparr>"

definition triangle :: "u32 list \<Rightarrow> u32 list \<Rightarrow> u32 list \<Rightarrow> Face" where
  "triangle cv cn cuv =
     \<lparr> edges = 3, face_v = cv, face_n = cn, face_t = [], face_uv = cuv,
       materialID = 0, materialName = [], mortonCode = 0, complete = False \<rparr>"

definition twinStore :: "('f, 'd) fpu \<Rightarrow> 'f \<Rightarrow> 'f \<Rightarrow> 'f \<Rightarrow> 'f Store" where
  "twinStore ops x y z =
     \<lparr> vertices = [parsedVertex ops x y z, parsedVertex ops x y z],
       normals = [], textureCoords = [], faces = [triangle [0, 1, 1] [] []], materials = [],
       materialMap = Map.empty,
       boundSphere = \<lparr> center = parsedVertex ops x y z, radius = lit32 ops 0 \<rparr>,
       vertexType = 0 \<rparr>"

definition sampleStore :: "real Store" where
  "sampleStore =
     \<lparr> vertices = [parsedVertex idealOps 0 0 0, parsedVertex idealOps 1 0 0,
                   parsedVertex idealOps 0 1 0],
       normals = [parsedNormal 0 0 1 0, parsedNormal 0 0 1 0, parsedNormal 1 0 0 0],
       textureCoords = [parsedUV 0 0 0, parsedUV 1 0 0, parsedUV 0 1 0],
       faces = [triangle [0, 1, 2] [0, 1, 2] [0, 1, 2]], materials = [],
       materialMap = Map.empty,
       boundSphere = \<lparr> center = parsedVertex idealOps 0 0 0, radius = 1 \<rparr>,
       vertexType = 0 \<rparr>"

definition sampleAfter :: "real Store" where
  "sampleAfter =
     sampleStore \<lparr> normals := [parsedNormal 0 0 1 0, parsedNormal 1 0 0 0],
                    faces := [triangle [0, 1, 2] [0, 0, 1] [0, 1, 2]] \<rparr>"

text \<open>
  The two tests as the specification words them, written without the functions of the
  program. The cross product and the dot product of vector algebra, on triples of double
  precision numbers:
  \<open>a \<times> b = (a\<^sub>y b\<^sub>z - a\<^sub>z b\<^sub>y, a\<^sub>z b\<^sub>x - a\<^sub>x b\<^sub>z, a\<^sub>x b\<^sub>y - a\<^sub>y b\<^sub>x)\<close> and
  \<open>a \<cdot> b = a\<^sub>x b\<^sub>x + a\<^sub>y b\<^sub>y + a\<^sub>z b\<^sub>z\<close>.
\<close>

fun specCross :: "('f, 'd) fpu \<Rightarrow> 'd \<times> 'd \<times> 'd \<Rightarrow> 'd \<times> 'd \<times> 'd \<Rightarrow> 'd \<times> 'd \<times> 'd" where
  "specCross ops (ax, ay, az) (bx, by, bz) =
     (sub64 ops (mul64 ops ay bz) (mul64 ops az by),
      sub64 ops (mul64 ops az bx) (mul64 ops ax bz),
      sub64 ops (mul64 ops ax by) (mul64 ops ay bx))"

fun specDot :: "('f, 'd) fpu \<Rightarrow> 'd \<times> 'd \<times> 'd \<Rightarrow> 'd \<times> 'd \<times> 'd \<Rightarrow> 'd" where
  "specDot ops (ax, ay, az) (bx, by, bz) =
     add64 ops (add64 ops (mul64 ops ax bx) (mul64 ops ay by)) (mul64 ops az bz)"

text \<open>The edge vector from \<open>a\<close> to \<open>b\<close>, and a vector divided by its Euclidean length.\<close>

definition specEdge :: "('f, 'd) fpu \<Rightarrow> 'f Vertex \<Rightarrow> 'f Vertex \<Rightarrow> 'd \<times> 'd \<times> 'd" where
  "specEdge ops a b =
     (to64 ops (sub32 ops (vX b) (vX a)), to64 ops (sub32 ops (vY b) (vY a)),
      to64 ops (sub32 ops (vZ b) (vZ a)))"

fun specUnit :: "('f, 'd) fpu \<Rightarrow> 'd \<times> 'd \<times> 'd \<Rightarrow> 'd \<times> 'd \<times> 'd" where
  "specUnit ops (x, y, z) =
     (div64 ops x (sqrt64 ops (specDot ops (x, y, z) (x, y, z))),
      div64 ops y (sqrt64 ops (specDot ops (x, y, z) (x, y, z))),
      div64 ops z (sqrt64 ops (specDot ops (x, y, z) (x, y, z))))"

text \<open>
  The unit normal of a triangle \<open>(a, b, c)\<close>: the cross product of the edge vectors
  \<open>b - a\<close> and \<open>c - a\<close>, in double precision, divided by its length.
\<close>

definition specUnitNormal ::
  "('f, 'd) fpu \<Rightarrow> 'f Vertex \<Rightarrow> 'f Vertex \<Rightarrow> 'f Vertex \<Rightarrow> 'd \<times> 'd \<times> 'd" where
  "specUnitNormal ops a b c = specUnit ops (specCross ops (specEdge ops a b) (specEdge ops a c))"

text \<open>Planarity fails when the absolute value of the dot product is below 0.999.\<close>

definition specPlanar ::
  "('f, 'd) fpu \<Rightarrow> 'f Vertex \<Rightarrow> 'f Vertex \<Rightarrow> 'f Vertex \<Rightarrow> 'f Vertex \<Rightarrow> bool" where
  "specPlanar ops v0 v1 v2 v3 =
     (\<not> lt64 ops (abs64 ops (specDot ops (specUnitNormal ops v0 v1 v2) (specUnitNormal ops v0 v2 v3)))
               (lit64 ops (999 / 1000)))"

text \<open>
  The z-component of the cross product of the edge from \<open>a\<close> to \<open>b\<close> with the edge from
  \<open>b\<close> to \<open>c\<close>, in the XY projection.
\<close>

definition specTurn :: "('f, 'd) fpu \<Rightarrow> 'f Vertex \<Rightarrow> 'f Vertex \<Rightarrow> 'f Vertex \<Rightarrow> 'd" where
  "specTurn ops a b c =
     sub64 ops
       (mul64 ops (sub64 ops (to64 ops (vX b)) (to64 ops (vX a)))
                  (sub64 ops (to64 ops (vY c)) (to64 ops (vY b))))
       (mul64 ops (sub64 ops (to64 ops (vY b)) (to64 ops (vY a)))
                  (sub64 ops (to64 ops (vX c)) (to64 ops (vX b))))"

text \<open>Convex: the four turns around the quad are all strictly positive or all strictly negative.\<close>

definition specConvex ::
  "('f, 'd) fpu \<Rightarrow> 'f Vertex \<Rightarrow> 'f Vertex \<Rightarrow> 'f Vertex \<Rightarrow> 'f Vertex \<Rightarrow> bool" where
  "specConvex ops v0 v1 v2 v3 =
     (let turns = [specTurn ops v0 v1 v2, specTurn ops v1 v2 v3,
                   specTurn ops v2 v3 v0, specTurn ops v3 v0 v1]
      in list_all (\<lambda>c. lt64 ops (lit64 ops 0) c) turns \<or>
         list_all (\<lambda>c. lt64 ops c (lit64 ops 0)) turns)"

definition corner :: "'f Vertex list \<Rightarrow> Face \<Rightarrow> nat \<Rightarrow> 'f Vertex" where
  "corner vs f k = vs ! unat (face_v f ! k)"

definition unitSquare :: "real Vertex list" where
  "unitSquare = [parsedVertex idealOps 0 0 0, parsedVertex idealOps 1 0 0,
                 parsedVertex idealOps 1 1 0, parsedVertex idealOps 0 1 0]"

definition quad0123 :: Face where
  "quad0123 = \<lparr> edges = 4, face_v = [0, 1, 2, 3], face_n = [0, 0, 0, 0], face_t = [],
                face_uv = [0, 1, 2, 3], materialID = 0, materialName = [], mortonCode = 0,
                complete = False \<rparr>"

text \<open>What \<^verbatim>\<open>rewriteCorners\<close> makes of a face whose slice is long enough.\<close>

definition rewritten :: "attr \<Rightarrow> (u32 \<Rightarrow> u32) \<Rightarrow> Face \<Rightarrow> Face" where
  "rewritten a g f =
     putIdx a (map g (take (unat (edges f)) (getIdx a f)) @ drop (unat (edges f)) (getIdx a f)) f"

text \<open>
  Invariants of a rebuild pass. \<open>fs0\<close> is the face array when the walk starts and \<open>xs0\<close>
  the attribute array. For the corner \<open>l\<close> of face \<open>k\<close>, whose index was \<open>o\<close> at the
  start: either entry \<open>o\<close> has been moved to the new array and the corner now holds an
  index of the new array, or entry \<open>o\<close> has not been moved, the corner still holds \<open>o\<close>,
  the face is in the lookup entry of \<open>o\<close> and is not complete.
\<close>

definition corner_inv ::
  "attr \<Rightarrow> ('a \<Rightarrow> bool) \<Rightarrow> Face list \<Rightarrow> 'a reindexState \<Rightarrow> nat \<Rightarrow> nat \<Rightarrow> bool" where
  "corner_inv a isf fs0 st k l \<longleftrightarrow>
     (let ov = getIdx a (fs0 ! k) ! l; c = getIdx a (r_faces st ! k) ! l in
      unat ov < length (r_old st) \<and>
      (if isf (r_old st ! unat ov) then unat c < r_cur st
       else c = ov \<and> (\<exists>u\<in>set (r_use st ! unat ov). unat u = k) \<and>
            \<not> complete (r_faces st ! k)))"

definition rframe :: "attr \<Rightarrow> Face list \<Rightarrow> Face list \<Rightarrow> bool" where
  "rframe a fs0 fs \<longleftrightarrow>
     length fs = length fs0 \<and>
     (\<forall>k<length fs0.
        putIdx a [] ((fs ! k) \<lparr> complete := False \<rparr>) = putIdx a [] ((fs0 ! k) \<lparr> complete := False \<rparr>) \<and>
        length (getIdx a (fs ! k)) = length (getIdx a (fs0 ! k)) \<and>
        drop (unat (edges (fs0 ! k))) (getIdx a (fs ! k)) =
          drop (unat (edges (fs0 ! k))) (getIdx a (fs0 ! k)))"

definition rinv ::
  "attr \<Rightarrow> ('a \<Rightarrow> bool) \<Rightarrow> Face list \<Rightarrow> 'a list \<Rightarrow> nat \<Rightarrow> 'a reindexState \<Rightarrow> bool" where
  "rinv a isf fs0 xs0 i st \<longleftrightarrow>
     rframe a fs0 (r_faces st) \<and>
     (\<forall>k<length fs0. complete (r_faces st ! k) = (k < i)) \<and>
     length (r_old st) = length xs0 \<and> length (r_use st) = length xs0 \<and>
     r_cur st = length (r_new st) \<and>
     mset (r_new st) + mset (filter (\<lambda>x. \<not> isf x) (r_old st)) = mset xs0 \<and>
     (\<forall>x<length xs0. \<forall>u\<in>set (r_use st ! x). unat u < length fs0) \<and>
     (\<forall>k<length fs0. \<forall>l<unat (edges (fs0 ! k)). corner_inv a isf fs0 st k l)"

definition use_inv :: "attr \<Rightarrow> Face list \<Rightarrow> nat \<Rightarrow> nat \<Rightarrow> nat \<Rightarrow> u32 list list \<Rightarrow> bool" where
  "use_inv a fs n i j use \<longleftrightarrow>
     length use = n \<and>
     (\<forall>x<n. \<forall>u\<in>set (use ! x). unat u < length fs) \<and>
     (\<forall>k<i. \<forall>l<unat (edges (fs ! k)). of_nat k \<in> set (use ! unat (getIdx a (fs ! k) ! l))) \<and>
     (\<forall>l<j. of_nat i \<in> set (use ! unat (getIdx a (fs ! i) ! l)))"

text \<open>
  The index arrays of a face are in order for an attribute array of length \<open>n\<close>: the
  slice holds at least \<^verbatim>\<open>edges\<close> entries, each of the first \<^verbatim>\<open>edges\<close> entries is an
  index of the array, and whatever lies beyond (the element a triangulation left behind
  when the face array moved) is zero.
\<close>

definition corners_ok :: "nat \<Rightarrow> attr \<Rightarrow> Face \<Rightarrow> bool" where
  "corners_ok n a f \<longleftrightarrow>
     unat (edges f) \<le> length (getIdx a f) \<and>
     list_all (\<lambda>x. unat x < n) (take (unat (edges f)) (getIdx a f)) \<and>
     list_all (\<lambda>x. x = 0) (drop (unat (edges f)) (getIdx a f))"

definition face_ok :: "(attr \<Rightarrow> nat) \<Rightarrow> Face \<Rightarrow> bool" where
  "face_ok sz f \<longleftrightarrow>
     (edges f = 3 \<or> edges f = 4) \<and> face_t f = [] \<and>
     corners_ok (sz VertexIdx) VertexIdx f \<and>
     corners_ok (sz NormalIdx) NormalIdx f \<and>
     corners_ok (sz UvIdx) UvIdx f"

fun sizes :: "'f Store \<Rightarrow> attr \<Rightarrow> nat" where
  "sizes s VertexIdx = length (vertices s)"
| "sizes s NormalIdx = length (normals s)"
| "sizes s UvIdx = length (textureCoords s)"

text \<open>
  The state of the store at a stage boundary: every face is a triangle or a quad with
  index arrays in order, no attribute entry is marked flushed, and the attribute arrays
  have at most \<open>2^32\<close> entries (an index is a \<^verbatim>\<open>uint32\<close>).
\<close>

definition store_ok :: "'f Store \<Rightarrow> bool" where
  "store_ok s \<longleftrightarrow>
     list_all (face_ok (sizes s)) (faces s) \<and>
     list_all (\<lambda>p. \<not> v_flushed p) (vertices s) \<and>
     list_all (\<lambda>p. \<not> n_flushed p) (normals s) \<and>
     list_all (\<lambda>p. \<not> t_flushed p) (textureCoords s) \<and>
     length (vertices s) \<le> 2 ^ 32 \<and> length (normals s) \<le> 2 ^ 32 \<and>
     length (textureCoords s) \<le> 2 ^ 32"

text \<open>
  The property of the claim: every entry of every index array of every face is an index
  of the corresponding attribute array.
\<close>

definition indices_valid :: "'f Store \<Rightarrow> bool" where
  "indices_valid s \<longleftrightarrow>
     list_all (\<lambda>f. list_all (\<lambda>x. unat x < length (vertices s)) (face_v f) \<and>
                    list_all (\<lambda>x. unat x < length (normals s)) (face_n f) \<and>
                    list_all (\<lambda>x. unat x < length (textureCoords s)) (face_uv f)) (faces s)"

text \<open>
  Invariant of a deduplication pass over one class: the faces agree with the faces \<open>fs0\<close>
  from before the pass in everything but the corners of the class, and every corner refers
  to an entry of the attribute array that is not marked.
\<close>

definition refs_ok :: "attr \<Rightarrow> ('a \<Rightarrow> bool) \<Rightarrow> Face list \<Rightarrow> Face list \<Rightarrow> 'a list \<Rightarrow> bool" where
  "refs_ok a isf fs0 fs xs \<longleftrightarrow>
     rframe a fs0 fs \<and>
     (\<forall>k<length fs0. \<forall>l<unat (edges (fs0 ! k)).
        unat (getIdx a (fs ! k) ! l) < length xs \<and> \<not> isf (xs ! unat (getIdx a (fs ! k) ! l)))"

section \<open>IEEE-754 values\<close>

text \<open>
  The values of a Go \<^verbatim>\<open>float32\<close> or \<^verbatim>\<open>float64\<close>: a finite number, an infinity,
  where \<open>Infty True\<close> is \<open>+Inf\<close> and \<open>Infty False\<close> is \<open>-Inf\<close>, or NaN. The sign of a zero is not
  kept. The result of an operation on finite numbers is the exact result rounded to the
  format; the rounding \<open>r\<close> is a parameter, and only the fact that zero is a number of
  every format, so that an exact result zero is returned as it is, is built in.
\<close>

datatype fl = Num real | Infty bool | NaN

definition rnd :: "(real \<Rightarrow> fl) \<Rightarrow> real \<Rightarrow> fl" where
  "rnd r x = (if x = 0 then Num 0 else r x)"

fun fl_add :: "(real \<Rightarrow> fl) \<Rightarrow> fl \<Rightarrow> fl \<Rightarrow> fl" where
  "fl_add r (Num x) (Num y) = rnd r (x + y)"
| "fl_add r (Num x) (Infty s) = Infty s"
| "fl_add r (Infty s) (Num y) = Infty s"
| "fl_add r (Infty s) (Infty t) = (if s = t then Infty s else NaN)"
| "fl_add r NaN b = NaN"
| "fl_add r a NaN = NaN"

fun fl_neg :: "fl \<Rightarrow> fl" where
  "fl_neg (Num x) = Num (- x)"
| "fl_neg (Infty s) = Infty (\<not> s)"
| "fl_neg NaN = NaN"

definition fl_sub :: "(real \<Rightarrow> fl) \<Rightarrow> fl \<Rightarrow> fl \<Rightarrow> fl" where
  "fl_sub r a b = fl_add r a (fl_neg b)"

fun fl_mul :: "(real \<Rightarrow> fl) \<Rightarrow> fl \<Rightarrow> fl \<Rightarrow> fl" where
  "fl_mul r (Num x) (Num y) = rnd r (x * y)"
| "fl_mul r (Num x) (Infty s) = (if x = 0 then NaN else Infty (s = (0 < x)))"
| "fl_mul r (Infty s) (Num y) = (if y = 0 then NaN else Infty (s = (0 < y)))"
| "fl_mul r (Infty s) (Infty t) = Infty (s = t)"
| "fl_mul r NaN b = NaN"
| "fl_mul r a NaN = NaN"

text \<open>Division: \<open>0 / 0\<close> and \<open>Inf / Inf\<close> are NaN, any other division by zero is an infinity.\<close>

fun fl_div :: "(real \<Rightarrow> fl) \<Rightarrow> fl \<Rightarrow> fl \<Rightarrow> fl" where
  "fl_div r (Num x) (Num y) =
     (if y = 0 then (if x = 0 then NaN else Infty (0 < x)) else rnd r (x / y))"
| "fl_div r (Num x) (Infty s) = Num 0"
| "fl_div r (Infty s) (Num y) = Infty (s = (0 \<le> y))"
| "fl_div r (Infty s) (Infty t) = NaN"
| "fl_div r NaN b = NaN"
| "fl_div r a NaN = NaN"

fun fl_sqrt :: "(real \<Rightarrow> fl) \<Rightarrow> fl \<Rightarrow> fl" where
  "fl_sqrt r (Num x) = (if x < 0 then NaN else rnd r (sqrt x))"
| "fl_sqrt r (Infty s) = (if s then Infty True else NaN)"
| "fl_sqrt r NaN = NaN"

fun fl_abs :: "fl \<Rightarrow> fl" where
  "fl_abs (Num x) = Num \<bar>x\<bar>"
| "fl_abs (Infty s) = Infty True"
| "fl_abs NaN = NaN"

text \<open>A comparison with NaN is false.\<close>

fun fl_lt :: "fl \<Rightarrow> fl \<Rightarrow> bool" where
  "fl_lt (Num x) (Num y) = (x < y)"
| "fl_lt (Num x) (Infty s) = s"
| "fl_lt (Infty s) (Num y) = (\<not> s)"
| "fl_lt (Infty s) (Infty t) = (\<not> s \<and> t)"
| "fl_lt NaN b = False"
| "fl_lt a NaN = False"

fun fl_cast :: "(real \<Rightarrow> fl) \<Rightarrow> fl \<Rightarrow> fl" where
  "fl_cast r (Num x) = rnd r x"
| "fl_cast r (Infty s) = Infty s"
| "fl_cast r NaN = NaN"

text \<open>
  The conversion to \<^verbatim>\<open>uint32\<close> truncates; what it gives for a value that is not finite
  depends on the machine and is taken to be zero.
\<close>

fun fl_u32 :: "fl \<Rightarrow> u32" where
  "fl_u32 (Num x) = word_of_int \<lfloor>x\<rfloor>"
| "fl_u32 (Infty s) = 0"
| "fl_u32 NaN = 0"

text \<open>
  The arithmetic of the machine with \<open>r32\<close> the rounding to single and \<open>r64\<close> the rounding
  to double precision. Every single precision number is a double precision number, so the
  conversion to \<^verbatim>\<open>float64\<close> changes nothing.
\<close>

definition ieeeOps :: "(real \<Rightarrow> fl) \<Rightarrow> (real \<Rightarrow> fl) \<Rightarrow> (fl, fl) fpu" where
  "ieeeOps r32 r64 =
     \<lparr> add32 = fl_add r32, sub32 = fl_sub r32, mul32 = fl_mul r32, div32 = fl_div r32,
       lit32 = (\<lambda>q. rnd r32 (of_rat q)),
       to64 = (\<lambda>x. x), to32 = fl_cast r32, of_u8 = (\<lambda>w. Num (real (unat w))),
       to_u32 = fl_u32,
       add64 = fl_add r64, sub64 = fl_sub r64, mul64 = fl_mul r64, div64 = fl_div r64,
       sqrt64 = fl_sqrt r64, abs64 = fl_abs, lt64 = fl_lt,
       lit64 = (\<lambda>q. rnd r64 (of_rat q)) \<rparr>"

text \<open>
  The property of the claim for a stored normal: its three coordinates are numbers and
  the Euclidean length of the vector is within \<open>10\<^sup>-\<^sup>5\<close> of one.
\<close>

fun unitWithin :: "fl \<Rightarrow> fl \<Rightarrow> fl \<Rightarrow> bool" where
  "unitWithin (Num x) (Num y) (Num z) = (\<bar>sqrt (x * x + y * y + z * z) - 1\<bar> \<le> 1 / 100000)"
| "unitWithin a b c = False"

definition unitLength :: "fl Normal \<Rightarrow> bool" where
  "unitLength p = unitWithin (nX p) (nY p) (nZ p)"

text \<open>How a run of the quad stage ends, for a store whose faces are in order: with the
  faces in order, or with a validation error, never with a panic.\<close>

definition quads_done :: "(attr \<Rightarrow> nat) \<Rightarrow> error + Face list \<Rightarrow> bool" where
  "quads_done sz r = (case r of Inl e \<Rightarrow> e \<noteq> IndexOutOfRange | Inr fs \<Rightarrow> list_all (face_ok sz) fs)"

text \<open>Every entry of the attribute array is the index of some corner of some face.\<close>

definition all_used :: "attr \<Rightarrow> Face list \<Rightarrow> nat \<Rightarrow> bool" where
  "all_used a fs n \<longleftrightarrow>
     (\<forall>x<n. \<exists>k<length fs. \<exists>l<unat (edges (fs ! k)). unat (getIdx a (fs ! k) ! l) = x)"

text \<open>What a rebuild pass keeps of a face: everything but the corner arrays, the Morton
  code and the marker.\<close>

definition faceRest :: "Face \<Rightarrow> Face" where
  "faceRest f = f \<lparr> face_v := [], face_n := [], face_uv := [], mortonCode := 0, complete := False \<rparr>"

text \<open>The part of the contract of \<^verbatim>\<open>slices.SortFunc\<close> that keeps the faces: the result
  is a rearrangement of the argument.\<close>

definition sortPermutes :: "((Face \<Rightarrow> Face \<Rightarrow> int) \<Rightarrow> Face list \<Rightarrow> Face list) \<Rightarrow> bool" where
  "sortPermutes sortFunc \<longleftrightarrow> (\<forall>fs. mset (sortFunc cmpMorton fs) = mset fs)"

section \<open>Theorems\<close>

subsection \<open>Loop rules\<close>

lemma iter_append:
  "iter body (ks @ ls) s = (case iter body ks s of Inl e \<Rightarrow> Inl e | Inr s' \<Rightarrow> iter body ls s')"
  by (induction ks arbitrary: s) (auto split: sum.splits)

lemma iter_total:
  assumes "I 0 s"
    and "\<And>k s. k < length ks \<Longrightarrow> I k s \<Longrightarrow> \<exists>s'. body (ks ! k) s = Inr s' \<and> I (Suc k) s'"
  shows "\<exists>s'. iter body ks s = Inr s' \<and> I (length ks) s'"
  using assms
proof (induction ks arbitrary: s I)
  case Nil
  then show ?case by simp
next
  case (Cons k ks)
  from Cons.prems(2) [of 0 s] Cons.prems(1)
  obtain s1 where s1: "body k s = Inr s1" "I (Suc 0) s1" by auto
  have "\<exists>s'. iter body ks s1 = Inr s' \<and> I (Suc (length ks)) s'"
  proof (rule Cons.IH [where I = "\<lambda>j. I (Suc j)"])
    show "I (Suc 0) s1" by (rule s1)
  next
    fix j t assume "j < length ks" "I (Suc j) t"
    then show "\<exists>s'. body (ks ! j) t = Inr s' \<and> I (Suc (Suc j)) s'"
      using Cons.prems(2) [of "Suc j" t] by simp
  qed
  with s1 show ?case by simp
qed

lemma iter_partial:
  assumes "iter body ks s = Inr t" and "I 0 s"
    and "\<And>k s s'. k < length ks \<Longrightarrow> I k s \<Longrightarrow> body (ks ! k) s = Inr s' \<Longrightarrow> I (Suc k) s'"
  shows "I (length ks) t"
  using assms
proof (induction ks arbitrary: s I)
  case Nil
  then show ?case by simp
next
  case (Cons k ks)
  from Cons.prems(1) obtain s1 where s1: "body k s = Inr s1" "iter body ks s1 = Inr t"
    by (auto split: sum.splits)
  have "I (Suc 0) s1" using Cons.prems(3) [of 0 s s1] Cons.prems(2) s1 by simp
  have "I (Suc (length ks)) t"
  proof (rule Cons.IH [where I = "\<lambda>j. I (Suc j)", OF s1(2)])
    show "I (Suc 0) s1" by fact
  next
    fix j u u' assume "j < length ks" "I (Suc j) u" "body (ks ! j) u = Inr u'"
    then show "I (Suc (Suc j)) u'" using Cons.prems(3) [of "Suc j" u u'] by simp
  qed
  then show ?case by simp
qed

lemma iter_upt_total:
  assumes "I a s"
    and "\<And>k s. a \<le> k \<Longrightarrow> k < b \<Longrightarrow> I k s \<Longrightarrow> \<exists>s'. body k s = Inr s' \<and> I (Suc k) s'"
  shows "\<exists>s'. iter body [a ..< b] s = Inr s' \<and> I (max a b) s'"
proof -
  have "\<exists>s'. iter body [a ..< b] s = Inr s' \<and> (\<lambda>j. I (a + j)) (length [a ..< b]) s'"
    by (rule iter_total) (use assms in auto)
  then show ?thesis by (auto simp: max_def)
qed

lemma iter_upt_partial:
  assumes "iter body [a ..< b] s = Inr t" and "I a s"
    and "\<And>k s s'. a \<le> k \<Longrightarrow> k < b \<Longrightarrow> I k s \<Longrightarrow> body k s = Inr s' \<Longrightarrow> I (Suc k) s'"
  shows "I (max a b) t"
proof -
  have "(\<lambda>j. I (a + j)) (length [a ..< b]) t"
    by (rule iter_partial [OF assms(1)]) (use assms(2,3) in auto)
  then show ?thesis by (auto simp: max_def)
qed

lemma iter_noop:
  "(\<And>k. k \<in> set ks \<Longrightarrow> body k s = Inr s) \<Longrightarrow> iter body ks s = Inr s"
  by (induction ks) auto

lemma mapE_all2:
  "mapE g xs = Inr ys \<Longrightarrow> list_all2 (\<lambda>x y. g x = Inr y) xs ys"
  by (induction xs arbitrary: ys) (auto split: sum.splits)

lemma all2_mapE:
  "list_all2 (\<lambda>x y. g x = Inr y) xs ys \<Longrightarrow> mapE g xs = Inr ys"
  by (induction rule: list_all2_induct) auto

lemma mapE_Inr_iff:
  "mapE g xs = Inr ys \<longleftrightarrow> list_all2 (\<lambda>x y. g x = Inr y) xs ys"
  using mapE_all2 all2_mapE by blast

lemma mapE_total:
  "(\<And>x. x \<in> set xs \<Longrightarrow> \<exists>y. g x = Inr y) \<Longrightarrow> \<exists>ys. mapE g xs = Inr ys"
  by (induction xs) (fastforce split: sum.splits)+

lemma mapE_length: "mapE g xs = Inr ys \<Longrightarrow> length ys = length xs"
  by (auto simp: mapE_Inr_iff dest: list_all2_lengthD)

lemma mapE_nth: "mapE g xs = Inr ys \<Longrightarrow> k < length xs \<Longrightarrow> g (xs ! k) = Inr (ys ! k)"
  by (auto simp: mapE_Inr_iff dest: list_all2_nthD)

subsection \<open>rewriteCorners\<close>

lemma getIdx_putIdx [simp]: "getIdx a (putIdx a s f) = s"
  by (cases a) simp_all

lemma getIdx_putIdx_other [simp]: "a \<noteq> b \<Longrightarrow> getIdx b (putIdx a s f) = getIdx b f"
  by (cases a; cases b) simp_all

lemma putIdx_putIdx [simp]: "putIdx a s (putIdx a s' f) = putIdx a s f"
  by (cases a) simp_all

lemma putIdx_fields [simp]:
  "edges (putIdx a s f) = edges f" "face_t (putIdx a s f) = face_t f"
  "materialID (putIdx a s f) = materialID f" "materialName (putIdx a s f) = materialName f"
  "mortonCode (putIdx a s f) = mortonCode f" "complete (putIdx a s f) = complete f"
  by (cases a; simp)+

lemma rewriteCorners_Inr:
  "rewriteCorners a g f = Inr f' \<longleftrightarrow>
     unat (edges f) \<le> length (getIdx a f) \<and>
     f' = putIdx a (map g (take (unat (edges f)) (getIdx a f)) @ drop (unat (edges f)) (getIdx a f)) f"
  by (auto simp: rewriteCorners_def Let_def)

lemma rewriteCorners_rest:
  "rewriteCorners a g f = Inr f' \<Longrightarrow> putIdx a [] f' = putIdx a [] f"
  by (simp add: rewriteCorners_Inr)

lemma mapE_rewrite_rest:
  "mapE (rewriteCorners a g) fs = Inr fs' \<Longrightarrow> map (putIdx a []) fs' = map (putIdx a []) fs"
  by (induction fs arbitrary: fs') (auto split: sum.splits dest: rewriteCorners_rest)


lemma pick023_populated:
  "length s = 4 \<Longrightarrow> pick023 s = Inr [s ! 0, s ! 2, s ! 3]"
  by (simp add: pick023_def)

lemma ConvertQuadToTriangles_populated:
  assumes "i < length fs"
    and "length (face_v (fs ! i)) = 4" and "length (face_n (fs ! i)) = 4"
    and "length (face_uv (fs ! i)) = 4" and "length (face_t (fs ! i)) \<noteq> 4"
  shows "\<exists>fs'. ConvertQuadToTriangles moved i fs = Inr fs'
           \<and> length fs' = Suc (length fs)
           \<and> edges (fs' ! i) = 3
           \<and> take 3 (face_v (fs' ! i)) = take 3 (face_v (fs ! i))
           \<and> take 3 (face_n (fs' ! i)) = take 3 (face_n (fs ! i))
           \<and> take 3 (face_uv (fs' ! i)) = take 3 (face_uv (fs ! i))
           \<and> materialID (fs' ! i) = materialID (fs ! i)
           \<and> edges (last fs') = 3
           \<and> face_v (last fs') = [face_v (fs ! i) ! 0, face_v (fs ! i) ! 2, face_v (fs ! i) ! 3]
           \<and> face_n (last fs') = [face_n (fs ! i) ! 0, face_n (fs ! i) ! 2, face_n (fs ! i) ! 3]
           \<and> face_uv (last fs') = [face_uv (fs ! i) ! 0, face_uv (fs ! i) ! 2, face_uv (fs ! i) ! 3]
           \<and> materialID (last fs') = materialID (fs ! i)
           \<and> materialName (last fs') = materialName (fs ! i)"
  using assms
  by (simp add: ConvertQuadToTriangles_def Let_def pick023_populated dropCorner3_def
      nth_append)

text \<open>
  C7 (triangulating a quad yields the triangles (0,1,2) and (0,2,3), the normal and uv
  arrays following the same selection). On a quad whose normal and uv arrays are absent
  (length 0), which is what the ingestor builds for \<^verbatim>\<open>f 1 2 3 4\<close>, the function reads
  \<^verbatim>\<open>f.n[0]\<close> and panics: no triangle is produced, whether or not the append moves the
  face array.
\<close>

theorem C7_bare_quad_panics:
  "ConvertQuadToTriangles moved 0 [bareQuad] = Inl IndexOutOfRange"
  by (simp add: ConvertQuadToTriangles_def bareQuad_def pick023_def)

text \<open>
  C4 (for a mesh without normals the encoder writes each face as degree byte, vertex
  indices, no normal indices, then the material index). The encoder reads
  \<^verbatim>\<open>faces[i].n[j]\<close> for every \<^verbatim>\<open>j < edges\<close> whatever the length of the normal array,
  so on the store above it panics at the first face and no face record is emitted, in
  either byte order.
\<close>

lemma putCorners_absent: "e \<noteq> 0 \<Longrightarrow> putCorners le e [] = Inl IndexOutOfRange"
  by (simp add: putCorners_def unat_eq_0)

theorem C4_normal_less_mesh_panics:
  "WriteOutput le (\<lambda>x. x) bareStore = Inl IndexOutOfRange"
  by (simp add: WriteOutput_def bareStore_def bareTriangle_def putFace_def putCorners_def)

subsection \<open>Deduplication: what it leaves alone\<close>

lemma skeleton_putIdx [simp]: "skeleton (putIdx a s f) = skeleton f"
  by (cases a) (simp_all add: skeleton_def)

lemma rest_skeleton:
  assumes "map (putIdx a []) fs' = map (putIdx a []) fs"
  shows "map skeleton fs' = map skeleton fs"
proof -
  have "map skeleton (map (putIdx a []) fs') = map skeleton (map (putIdx a []) fs)"
    using assms by simp
  then show ?thesis by (simp add: comp_def)
qed

lemma marked_refl: "marked isf xs xs"
  by (simp add: marked_def list_all2_same)

lemma marked_update:
  "marked isf xs0 xs \<Longrightarrow> isf y \<Longrightarrow> marked isf xs0 (xs [j := y])"
  unfolding marked_def list_all2_conv_all_nth
  by (metis length_list_update nth_list_update_eq nth_list_update_neq)

lemma marked_length: "marked isf xs0 xs \<Longrightarrow> length xs = length xs0"
  by (simp add: marked_def list_all2_lengthD)

lemma marked_subseq:
  "marked isf xs0 xs \<Longrightarrow> subseq (filter (\<lambda>x. \<not> isf x) xs) xs0"
  unfolding marked_def
  by (induction rule: list_all2_induct) auto

lemma markPair_frame:
  assumes "markPair a near setf i j (xs, fs, d) = Inr (xs', fs', d')"
    and "\<And>x. isf (setf x)" and "marked isf xs0 xs"
  shows "marked isf xs0 xs' \<and> map (putIdx a []) fs' = map (putIdx a []) fs"
  using assms
  by (auto simp: markPair_def marked_update split: if_splits sum.splits dest: mapE_rewrite_rest)

lemma markPhase_frame:
  assumes "markPhase a skip near setf xs0 fs0 = Inr (xs', fs', d')" and "\<And>x. isf (setf x)"
  shows "marked isf xs0 xs' \<and> map (putIdx a []) fs' = map (putIdx a []) fs0"
proof -
  let ?J = "\<lambda>(xs, fs, d :: nat). marked isf xs0 xs \<and> map (putIdx a []) fs = map (putIdx a []) fs0"
  have "(\<lambda>k. ?J) (max 0 (length xs0)) (xs', fs', d')"
  proof (rule iter_upt_partial [OF assms(1) [unfolded markPhase_def]])
    show "?J (xs0, fs0, 0)" by (simp add: marked_refl)
  next
    fix i s s'
    assume J: "?J s"
      and step: "(case s of (xs, fs, d) \<Rightarrow>
                    if skip (xs ! i) then Inr (xs, fs, d)
                    else iter (markPair a near setf i) [i + 1 ..< length xs] (xs, fs, d)) = Inr s'"
    obtain xs fs d where s: "s = (xs, fs, d)" by (cases s)
    show "?J s'"
    proof (cases "skip (xs ! i)")
      case True
      with step s J show ?thesis by simp
    next
      case False
      with step s have it: "iter (markPair a near setf i) [i + 1 ..< length xs] s = Inr s'" by simp
      have "(\<lambda>k. ?J) (max (i + 1) (length xs)) s'"
      proof (rule iter_upt_partial [OF it])
        show "?J s" by (rule J)
      next
        fix j t t'
        assume "?J t" "markPair a near setf i j t = Inr t'"
        then show "?J t'"
          using markPair_frame [of a near setf i j _ _ _ _ _ _ isf xs0] assms(2)
          by (cases t; cases t') auto
      qed
      then show ?thesis .
    qed
  qed
  then show ?thesis by simp
qed

lemma removeFlushed_frame:
  "removeFlushed a isf i xs fs = Inr (xs', fs') \<Longrightarrow>
   xs' = take i xs @ filter (\<lambda>x. \<not> isf x) (drop i xs) \<and>
   map (putIdx a []) fs' = map (putIdx a []) fs"
proof (induction a isf i xs fs rule: removeFlushed.induct)
  case (1 a isf i xs fs)
  show ?case
  proof (cases "i < length xs")
    case False
    with "1.prems" show ?thesis by (simp add: removeFlushed.simps)
  next
    case lt: True
    show ?thesis
    proof (cases "isf (xs ! i)")
      case False
      with lt "1.prems" have "removeFlushed a isf (i + 1) xs fs = Inr (xs', fs')"
        by (simp add: removeFlushed.simps)
      from "1.IH"(2) [OF lt False this] lt False show ?thesis
        by (simp add: take_Suc_conv_app_nth Cons_nth_drop_Suc [symmetric])
    next
      case True
      from lt have rm: "RemoveAtIndex xs i = Inr (take i xs @ drop (i + 1) xs)"
        by (simp add: RemoveAtIndex_def)
      from True lt "1.prems" rm obtain fs1 where
        fs1: "mapE (rewriteCorners a (\<lambda>x. if of_nat i < x then x - 1 else x)) fs = Inr fs1"
        and rec: "removeFlushed a isf i (take i xs @ drop (i + 1) xs) fs1 = Inr (xs', fs')"
        by (subst (asm) removeFlushed.simps) (auto split: sum.splits)
      from "1.IH"(1) [OF lt True rm fs1 rec] mapE_rewrite_rest [OF fs1] lt True show ?thesis
        by (simp add: Cons_nth_drop_Suc [symmetric] min_def)
    qed
  qed
qed

lemma dedupe_class_frame:
  assumes "markPhase a skip near setf xs0 fs0 = Inr (xs1, fs1, d)"
    and "removeFlushed a isf 0 xs1 fs1 = Inr (xs2, fs2)" and "\<And>x. isf (setf x)"
  shows "subseq xs2 xs0 \<and> map skeleton fs2 = map skeleton fs0"
  using markPhase_frame [OF assms(1), of isf] removeFlushed_frame [OF assms(2)] assms(3)
  by (auto simp: marked_subseq dest: rest_skeleton)

lemma removeFlushed_none:
  "(\<And>x. x \<in> set xs \<Longrightarrow> \<not> isf x) \<Longrightarrow> removeFlushed a isf i xs fs = Inr (xs, fs)"
proof (induction "length xs - i" arbitrary: i)
  case 0
  then show ?case by (simp add: removeFlushed.simps)
next
  case (Suc m)
  then have "i < length xs" "\<not> isf (xs ! i)" "m = length xs - (i + 1)" by auto
  with Suc.hyps(1) [of "i + 1"] Suc.prems show ?case
    by (subst removeFlushed.simps) simp
qed

lemma markPhase_vertices_noop:
  assumes "\<And>p. p \<in> set vs \<Longrightarrow> \<not> v_flushed p"
  shows "markPhase VertexIdx (\<lambda>p. \<not> v_flushed p) near setf vs fs = Inr (vs, fs, 0)"
  unfolding markPhase_def
  by (rule iter_noop) (use assms in auto)

lemma DeDupe_vertex_pass_noop:
  assumes "\<And>p. p \<in> set (vertices s) \<Longrightarrow> \<not> v_flushed p"
    and "DeDupe ops vT nT uvT s = Inr (s', dv, dn, du)"
  shows "vertices s' = vertices s \<and> dv = 0 \<and> map face_v (faces s') = map face_v (faces s)"
proof -
  from assms obtain ns1 fs3 ns2 fs4 ts1 fs5 ts2 fs6 where
    m2: "markPhase NormalIdx n_flushed (normalNear ops nT) (\<lambda>p. p \<lparr> n_flushed := True \<rparr>)
           (normals s) (faces s) = Inr (ns1, fs3, dn)"
    and r2: "removeFlushed NormalIdx n_flushed 0 ns1 fs3 = Inr (ns2, fs4)"
    and m3: "markPhase UvIdx t_flushed (uvNear ops uvT) (\<lambda>p. p \<lparr> t_flushed := True \<rparr>)
           (textureCoords s) fs4 = Inr (ts1, fs5, du)"
    and r3: "removeFlushed UvIdx t_flushed 0 ts1 fs5 = Inr (ts2, fs6)"
    and s': "s' = s \<lparr> vertices := vertices s, normals := ns2, textureCoords := ts2, faces := fs6 \<rparr>"
    and dv: "dv = 0"
    by (auto simp: DeDupe_def markPhase_vertices_noop removeFlushed_none split: sum.splits prod.splits)
  have "map (putIdx NormalIdx []) fs4 = map (putIdx NormalIdx []) (faces s)"
    using markPhase_frame [OF m2, of n_flushed] removeFlushed_frame [OF r2] by simp
  moreover have "map (putIdx UvIdx []) fs6 = map (putIdx UvIdx []) fs4"
    using markPhase_frame [OF m3, of t_flushed] removeFlushed_frame [OF r3] by simp
  ultimately have "map face_v fs6 = map face_v (faces s)"
  proof -
    assume a: "map (putIdx NormalIdx []) fs4 = map (putIdx NormalIdx []) (faces s)"
       and b: "map (putIdx UvIdx []) fs6 = map (putIdx UvIdx []) fs4"
    have "map face_v (map (putIdx NormalIdx []) fs4) = map face_v (map (putIdx NormalIdx []) (faces s))"
      using a by simp
    moreover have "map face_v (map (putIdx UvIdx []) fs6) = map face_v (map (putIdx UvIdx []) fs4)"
      using b by simp
    ultimately show ?thesis by (simp add: comp_def)
  qed
  with s' dv show ?thesis by simp
qed

text \<open>
  C3 (vertex deduplication merges every pair of vertices closer than the tolerance, the
  later into the earlier). The loop over \<^verbatim>\<open>i\<close> of the vertex pass starts with
  \<^verbatim>\<open>if !vertices[i].flushed { continue }\<close>, the negation of the test the normal and
  texture-coordinate passes make, so it skips every vertex that is still in use. On a store
  holding the same parsed vertex twice, nothing is merged: the store comes back unchanged
  with zero duplicates counted, for every tolerance and whatever the arithmetic.
\<close>

theorem C3_coincident_vertices_kept:
  "DeDupe ops vT nT uvT (twinStore ops x y z) = Inr (twinStore ops x y z, 0, 0, 0)"
  by (simp add: DeDupe_def twinStore_def parsedVertex_def markPhase_vertices_noop
      removeFlushed_none markPhase_def removeFlushed.simps)

lemma skeleton_proj:
  assumes "map skeleton fs' = map skeleton fs" and "\<And>f. g (skeleton f) = g f"
  shows "map g fs' = map g fs"
proof -
  have "map g (map skeleton fs') = map g (map skeleton fs)" using assms(1) by simp
  then show ?thesis by (simp add: comp_def assms(2))
qed

text \<open>
  C10 (what deduplication leaves alone). Whenever \<^verbatim>\<open>DeDupe\<close> returns: the number of
  faces, the edge count, material index and material name of each face (and everything
  else of a face but its three index arrays) are unchanged; each attribute array after is
  a subsequence of the array before, so the surviving entries keep their values and
  their relative order; the materials, the material map, the bounding sphere and the
  vertex type are unchanged.
\<close>

theorem C10_dedupe_frame:
  assumes "DeDupe ops vT nT uvT s = Inr (s', dv, dn, du)"
  shows "length (faces s') = length (faces s) \<and>
         map edges (faces s') = map edges (faces s) \<and>
         map materialID (faces s') = map materialID (faces s) \<and>
         map materialName (faces s') = map materialName (faces s) \<and>
         map skeleton (faces s') = map skeleton (faces s) \<and>
         subseq (vertices s') (vertices s) \<and>
         subseq (normals s') (normals s) \<and>
         subseq (textureCoords s') (textureCoords s) \<and>
         materials s' = materials s \<and> materialMap s' = materialMap s \<and>
         boundSphere s' = boundSphere s \<and> vertexType s' = vertexType s"
proof -
  from assms obtain vs1 fs1 vs2 fs2 ns1 fs3 ns2 fs4 ts1 fs5 ts2 fs6 where
    m1: "markPhase VertexIdx (\<lambda>p. \<not> v_flushed p) (vertexNear ops vT)
           (\<lambda>p. p \<lparr> v_flushed := True \<rparr>) (vertices s) (faces s) = Inr (vs1, fs1, dv)"
    and r1: "removeFlushed VertexIdx v_flushed 0 vs1 fs1 = Inr (vs2, fs2)"
    and m2: "markPhase NormalIdx n_flushed (normalNear ops nT) (\<lambda>p. p \<lparr> n_flushed := True \<rparr>)
           (normals s) fs2 = Inr (ns1, fs3, dn)"
    and r2: "removeFlushed NormalIdx n_flushed 0 ns1 fs3 = Inr (ns2, fs4)"
    and m3: "markPhase UvIdx t_flushed (uvNear ops uvT) (\<lambda>p. p \<lparr> t_flushed := True \<rparr>)
           (textureCoords s) fs4 = Inr (ts1, fs5, du)"
    and r3: "removeFlushed UvIdx t_flushed 0 ts1 fs5 = Inr (ts2, fs6)"
    and s': "s' = s \<lparr> vertices := vs2, normals := ns2, textureCoords := ts2, faces := fs6 \<rparr>"
    by (auto simp: DeDupe_def split: sum.splits prod.splits)
  have v: "subseq vs2 (vertices s) \<and> map skeleton fs2 = map skeleton (faces s)"
    by (rule dedupe_class_frame [OF m1 r1]) simp
  have n: "subseq ns2 (normals s) \<and> map skeleton fs4 = map skeleton fs2"
    by (rule dedupe_class_frame [OF m2 r2]) simp
  have t: "subseq ts2 (textureCoords s) \<and> map skeleton fs6 = map skeleton fs4"
    by (rule dedupe_class_frame [OF m3 r3]) simp
  from v n t have sk: "map skeleton fs6 = map skeleton (faces s)" by simp
  have "length fs6 = length (faces s)" using sk by (rule map_eq_imp_length_eq)
  moreover have "map edges fs6 = map edges (faces s)"
    by (rule skeleton_proj [OF sk]) (simp add: skeleton_def)
  moreover have "map materialID fs6 = map materialID (faces s)"
    by (rule skeleton_proj [OF sk]) (simp add: skeleton_def)
  moreover have "map materialName fs6 = map materialName (faces s)"
    by (rule skeleton_proj [OF sk]) (simp add: skeleton_def)
  ultimately show ?thesis using v n t sk s' by simp
qed

lemma sample_mark_normals:
  "markPhase NormalIdx n_flushed (normalNear idealOps (1 / 100000)) (\<lambda>p. p \<lparr> n_flushed := True \<rparr>)
     [parsedNormal 0 0 1 0, parsedNormal 0 0 1 0, parsedNormal 1 0 0 0]
     [triangle [0, 1, 2] [0, 1, 2] [0, 1, 2]] =
   Inr ([parsedNormal 0 0 1 0, (parsedNormal 0 0 1 0) \<lparr> n_flushed := True \<rparr>, parsedNormal 1 0 0 0],
        [triangle [0, 1, 2] [0, 0, 2] [0, 1, 2]], 1)"
  by (simp add: markPhase_def upt_rec markPair_def normalNear_def idealOps_def parsedNormal_def
      triangle_def rewriteCorners_def Let_def)

lemma sample_remove_normals:
  "removeFlushed NormalIdx n_flushed 0
     [parsedNormal 0 0 1 0, (parsedNormal 0 0 1 0) \<lparr> n_flushed := True \<rparr>, parsedNormal 1 0 0 (0::real)]
     [triangle [0, 1, 2] [0, 0, 2] [0, 1, 2]] =
   Inr ([parsedNormal 0 0 1 0, parsedNormal 1 0 0 0], [triangle [0, 1, 2] [0, 0, 1] [0, 1, 2]])"
  by (simp add: removeFlushed.simps RemoveAtIndex_def parsedNormal_def
      triangle_def rewriteCorners_def Let_def)

lemma sample_mark_uv:
  "markPhase UvIdx t_flushed (uvNear idealOps (1 / 100000)) (\<lambda>p. p \<lparr> t_flushed := True \<rparr>)
     [parsedUV 0 0 0, parsedUV 1 0 0, parsedUV 0 1 0] fs =
   Inr ([parsedUV 0 0 0, parsedUV 1 0 0, parsedUV 0 1 0], fs, 0)"
  by (simp add: markPhase_def upt_rec markPair_def uvNear_def idealOps_def parsedUV_def Let_def)

lemma sample_dedupe:
  "DeDupe idealOps (1 / 10000) (1 / 100000) (1 / 100000) sampleStore =
     Inr (sampleStore \<lparr> normals := [parsedNormal 0 0 1 0, parsedNormal 1 0 0 0],
                         faces := [triangle [0, 1, 2] [0, 0, 1] [0, 1, 2]] \<rparr>, 0, 1, 0)"
proof -
  have v: "\<And>p. p \<in> set (vertices sampleStore) \<Longrightarrow> \<not> v_flushed p"
    by (auto simp: sampleStore_def parsedVertex_def)
  have t: "removeFlushed UvIdx t_flushed 0 [parsedUV 0 0 0, parsedUV 1 0 0, parsedUV 0 1 (0::real)] fs
             = Inr ([parsedUV 0 0 0, parsedUV 1 0 0, parsedUV 0 1 0], fs)" for fs
    by (rule removeFlushed_none) (auto simp: parsedUV_def)
  show ?thesis
    unfolding DeDupe_def
    by (simp add: markPhase_vertices_noop [OF v] removeFlushed_none [OF v])
       (simp add: sampleStore_def sample_mark_normals sample_remove_normals sample_mark_uv t)
qed

theorem C10_dedupe_frame_witness:
  "DeDupe idealOps (1 / 10000) (1 / 100000) (1 / 100000) sampleStore = Inr (sampleAfter, 0, 1, 0) \<and>
   length (faces sampleAfter) = length (faces sampleStore) \<and>
   map edges (faces sampleAfter) = map edges (faces sampleStore) \<and>
   map materialID (faces sampleAfter) = map materialID (faces sampleStore) \<and>
   map materialName (faces sampleAfter) = map materialName (faces sampleStore) \<and>
   map skeleton (faces sampleAfter) = map skeleton (faces sampleStore) \<and>
   subseq (vertices sampleAfter) (vertices sampleStore) \<and>
   subseq (normals sampleAfter) (normals sampleStore) \<and>
   subseq (textureCoords sampleAfter) (textureCoords sampleStore) \<and>
   materials sampleAfter = materials sampleStore \<and>
   materialMap sampleAfter = materialMap sampleStore \<and>
   boundSphere sampleAfter = boundSphere sampleStore \<and>
   vertexType sampleAfter = vertexType sampleStore \<and>
   length (normals sampleAfter) < length (normals sampleStore)"
proof -
  have run: "DeDupe idealOps (1 / 10000) (1 / 100000) (1 / 100000) sampleStore
               = Inr (sampleAfter, 0, 1, 0)"
    by (simp add: sample_dedupe sampleAfter_def)
  have "length (normals sampleAfter) < length (normals sampleStore)"
    by (simp add: sampleAfter_def sampleStore_def)
  with run C10_dedupe_frame [OF run] show ?thesis by simp
qed

lemma quadDot_spec:
  "quadDot ops p0 p1 p2 p3 =
     specDot ops (specUnitNormal ops p0 p1 p2) (specUnitNormal ops p0 p2 p3)"
  by (simp add: quadDot_def specUnitNormal_def specEdge_def crossProduct_def dotProduct_def Let_def)

lemma isConvex_spec:
  "isConvex ops (to64 ops (vX p0)) (to64 ops (vY p0)) (to64 ops (vX p1)) (to64 ops (vY p1))
                (to64 ops (vX p2)) (to64 ops (vY p2)) (to64 ops (vX p3)) (to64 ops (vY p3))
     = specConvex ops p0 p1 p2 p3"
  by (simp add: isConvex_def specConvex_def specTurn_def crossProductZ_def Let_def)

lemma vertexAt_corner:
  "k < length (face_v f) \<Longrightarrow> unat (face_v f ! k) < length vs \<Longrightarrow>
   vertexAt vs (face_v f) k = Inr (corner vs f k)"
  by (simp add: vertexAt_def corner_def)

text \<open>
  C8. For a quad whose four corner indices are indices of the vertex array,
  \<^verbatim>\<open>ValidateQuad\<close> reports "not planar" exactly when the planarity test of the
  specification fails, \<^verbatim>\<open>isConvex\<close> is the convexity test of the specification,
  "not convex" is reported exactly when the quad is planar and not convex, and the quad
  passes exactly when it passes both tests.
\<close>

theorem C8_validate_quad:
  assumes "4 \<le> length (face_v f)" and "\<forall>k<4. unat (face_v f ! k) < length vs"
  shows "(ValidateQuad ops vs f = Inl QuadNotPlanar \<longleftrightarrow>
            \<not> specPlanar ops (corner vs f 0) (corner vs f 1) (corner vs f 2) (corner vs f 3)) \<and>
         (isConvex ops (to64 ops (vX (corner vs f 0))) (to64 ops (vY (corner vs f 0)))
                       (to64 ops (vX (corner vs f 1))) (to64 ops (vY (corner vs f 1)))
                       (to64 ops (vX (corner vs f 2))) (to64 ops (vY (corner vs f 2)))
                       (to64 ops (vX (corner vs f 3))) (to64 ops (vY (corner vs f 3))) \<longleftrightarrow>
            specConvex ops (corner vs f 0) (corner vs f 1) (corner vs f 2) (corner vs f 3)) \<and>
         (ValidateQuad ops vs f = Inl QuadNotConvex \<longleftrightarrow>
            specPlanar ops (corner vs f 0) (corner vs f 1) (corner vs f 2) (corner vs f 3) \<and>
            \<not> specConvex ops (corner vs f 0) (corner vs f 1) (corner vs f 2) (corner vs f 3)) \<and>
         (ValidateQuad ops vs f = Inr () \<longleftrightarrow>
            specPlanar ops (corner vs f 0) (corner vs f 1) (corner vs f 2) (corner vs f 3) \<and>
            specConvex ops (corner vs f 0) (corner vs f 1) (corner vs f 2) (corner vs f 3))"
proof -
  have c: "vertexAt vs (face_v f) 0 = Inr (corner vs f 0)"
          "vertexAt vs (face_v f) 1 = Inr (corner vs f 1)"
          "vertexAt vs (face_v f) 2 = Inr (corner vs f 2)"
          "vertexAt vs (face_v f) 3 = Inr (corner vs f 3)"
  proof -
    have "(0::nat) < 4" "(1::nat) < 4" "(2::nat) < 4" "(3::nat) < 4" by simp_all
    then have v: "unat (face_v f ! 0) < length vs" "unat (face_v f ! 1) < length vs"
      "unat (face_v f ! 2) < length vs" "unat (face_v f ! 3) < length vs"
      using assms(2) by blast+
    show "vertexAt vs (face_v f) 0 = Inr (corner vs f 0)"
         "vertexAt vs (face_v f) 1 = Inr (corner vs f 1)"
         "vertexAt vs (face_v f) 2 = Inr (corner vs f 2)"
         "vertexAt vs (face_v f) 3 = Inr (corner vs f 3)"
      using assms(1) v by (auto simp: vertexAt_def corner_def)
  qed
  have p: "specPlanar ops (corner vs f 0) (corner vs f 1) (corner vs f 2) (corner vs f 3) \<longleftrightarrow>
           \<not> lt64 ops (abs64 ops (quadDot ops (corner vs f 0) (corner vs f 1) (corner vs f 2)
                                    (corner vs f 3))) (lit64 ops (999 / 1000))"
    by (simp add: specPlanar_def quadDot_spec)
  show ?thesis
    unfolding ValidateQuad_def c p isConvex_spec by simp
qed

lemma unitSquare_planar:
  "specPlanar idealOps (corner unitSquare quad0123 0) (corner unitSquare quad0123 1)
     (corner unitSquare quad0123 2) (corner unitSquare quad0123 3)"
  by (simp add: specPlanar_def specUnitNormal_def specEdge_def idealOps_def
      corner_def unitSquare_def quad0123_def parsedVertex_def)

lemma unitSquare_convex:
  "specConvex idealOps (corner unitSquare quad0123 0) (corner unitSquare quad0123 1)
     (corner unitSquare quad0123 2) (corner unitSquare quad0123 3)"
  by (simp add: specConvex_def specTurn_def idealOps_def
      corner_def unitSquare_def quad0123_def parsedVertex_def Let_def)

theorem C8_validate_quad_witness:
  "4 \<le> length (face_v quad0123) \<and>
   list_all (\<lambda>k. unat (face_v quad0123 ! k) < length unitSquare) [0, 1, 2, 3] \<and>
   ValidateQuad idealOps unitSquare quad0123 = Inr () \<and>
   specPlanar idealOps (corner unitSquare quad0123 0) (corner unitSquare quad0123 1)
     (corner unitSquare quad0123 2) (corner unitSquare quad0123 3) \<and>
   specConvex idealOps (corner unitSquare quad0123 0) (corner unitSquare quad0123 1)
     (corner unitSquare quad0123 2) (corner unitSquare quad0123 3)"
proof -
  have a: "4 \<le> length (face_v quad0123)" by (simp add: quad0123_def)
  have b: "\<forall>k<4. unat (face_v quad0123 ! k) < length unitSquare"
  proof (intro allI impI)
    fix k :: nat assume "k < 4"
    then have "k = 0 \<or> k = 1 \<or> k = 2 \<or> k = 3" by arith
    then show "unat (face_v quad0123 ! k) < length unitSquare"
      by (auto simp: quad0123_def unitSquare_def)
  qed
  have "list_all (\<lambda>k. unat (face_v quad0123 ! k) < length unitSquare) [0, 1, 2, 3]"
    by (simp add: quad0123_def unitSquare_def)
  with a C8_validate_quad [OF a b, of idealOps] unitSquare_planar unitSquare_convex
  show ?thesis by simp
qed

lemma normalize_unit_example:
  "unitLength (normalize (ieeeOps Num Num) (parsedNormal (Num 0) (Num 3) (Num 0) (Num 0)))"
  by (simp add: normalize_def ieeeOps_def parsedNormal_def unitLength_def rnd_def
      real_sqrt_mult)

text \<open>
  C9 (every stored normal has unit length after the normalisation applied when it is
  parsed). The ingestor accepts the line \<^verbatim>\<open>vn 0 0 0\<close> and normalises it like any other.
  For that normal the sum of the squares is zero, the length computed is zero, and each
  coordinate becomes the quotient \<open>0 / 0\<close>, that is NaN, whatever the rounding: the stored
  normal is \<open>(NaN, NaN, NaN)\<close>, which is not a vector of length one within \<open>10\<^sup>-\<^sup>5\<close>.
\<close>

theorem C9_zero_normal_not_unit:
  "normalize (ieeeOps r32 r64) (parsedNormal (Num 0) (Num 0) (Num 0) (Num 0))
     = parsedNormal NaN NaN NaN (Num 0) \<and>
   \<not> unitLength (normalize (ieeeOps r32 r64) (parsedNormal (Num 0) (Num 0) (Num 0) (Num 0)))"
  by (simp add: normalize_def ieeeOps_def parsedNormal_def unitLength_def rnd_def)

lemma rewriteCorners_rewritten:
  "unat (edges f) \<le> length (getIdx a f) \<Longrightarrow> rewriteCorners a g f = Inr (rewritten a g f)"
  by (simp add: rewriteCorners_def rewritten_def Let_def)

lemma rewriteCorners_fails:
  "\<not> unat (edges f) \<le> length (getIdx a f) \<Longrightarrow> rewriteCorners a g f = Inl IndexOutOfRange"
  by (simp add: rewriteCorners_def Let_def)

lemma rewritten_fields [simp]:
  "edges (rewritten a g f) = edges f" "complete (rewritten a g f) = complete f"
  "face_t (rewritten a g f) = face_t f" "mortonCode (rewritten a g f) = mortonCode f"
  "materialID (rewritten a g f) = materialID f" "materialName (rewritten a g f) = materialName f"
  by (simp_all add: rewritten_def)

lemma rewritten_length [simp]:
  "length (getIdx a (rewritten a g f)) = length (getIdx a f)"
  by (simp add: rewritten_def)

lemma rewritten_other [simp]: "a \<noteq> b \<Longrightarrow> getIdx b (rewritten a g f) = getIdx b f"
  by (simp add: rewritten_def)

lemma rewritten_rest [simp]: "putIdx a [] (rewritten a g f) = putIdx a [] f"
  by (simp add: rewritten_def)

lemma rewritten_nth:
  "l < length (getIdx a f) \<Longrightarrow> unat (edges f) \<le> length (getIdx a f) \<Longrightarrow>
   getIdx a (rewritten a g f) ! l = (if l < unat (edges f) then g (getIdx a f ! l) else getIdx a f ! l)"
  by (simp add: rewritten_def nth_append)

lemma rewritten_take:
  "unat (edges f) \<le> length (getIdx a f) \<Longrightarrow>
   take (unat (edges f)) (getIdx a (rewritten a g f)) = map g (take (unat (edges f)) (getIdx a f))"
  by (simp add: rewritten_def)

lemma rewritten_drop:
  "unat (edges f) \<le> length (getIdx a f) \<Longrightarrow>
   drop (unat (edges f)) (getIdx a (rewritten a g f)) = drop (unat (edges f)) (getIdx a f)"
  by (simp add: rewritten_def)

lemma rewritten_idem:
  "(\<And>x. g (g x) = g x) \<Longrightarrow> unat (edges f) \<le> length (getIdx a f) \<Longrightarrow>
   rewritten a g (rewritten a g f) = rewritten a g f"
  by (simp add: rewritten_def comp_def)

lemma rewritten_complete [simp]:
  "rewritten a g (f \<lparr> complete := c \<rparr>) = (rewritten a g f) \<lparr> complete := c \<rparr>"
  by (cases a) (simp_all add: rewritten_def)

lemma mapE_rewrite:
  "(\<And>f. f \<in> set fs \<Longrightarrow> unat (edges f) \<le> length (getIdx a f)) \<Longrightarrow>
   mapE (rewriteCorners a g) fs = Inr (map (rewritten a g) fs)"
  by (induction fs) (simp_all add: rewriteCorners_rewritten)

lemma remapUse_result:
  assumes "\<And>f. f \<in> set fs \<Longrightarrow> unat (edges f) \<le> length (getIdx a f)"
    and "\<And>u. u \<in> set us \<Longrightarrow> unat u < length fs"
  shows "\<exists>fs'. remapUse a vidx cur us fs = Inr fs' \<and> length fs' = length fs \<and>
           (\<forall>k<length fs. fs' ! k =
              (if (\<exists>u\<in>set us. unat u = k) \<and> \<not> complete (fs ! k)
               then rewritten a (\<lambda>x. if x = vidx then of_nat cur else x) (fs ! k)
               else fs ! k))"
  using assms
proof (induction us arbitrary: fs)
  case Nil
  then show ?case by (simp add: remapUse_def)
next
  case (Cons u us)
  let ?g = "\<lambda>x. if x = vidx then (of_nat cur :: u32) else x"
  let ?fs1 = "if \<not> complete (fs ! unat u) then fs [unat u := rewritten a ?g (fs ! unat u)] else fs"
  have u: "unat u < length fs" using Cons.prems(2) by simp
  then have wfu: "unat (edges (fs ! unat u)) \<le> length (getIdx a (fs ! unat u))"
    using Cons.prems(1) by simp
  have step: "remapUse a vidx cur (u # us) fs = remapUse a vidx cur us ?fs1"
    using u wfu by (simp add: remapUse_def rewriteCorners_rewritten)
  have wf1: "\<And>f. f \<in> set ?fs1 \<Longrightarrow> unat (edges f) \<le> length (getIdx a f)"
  proof -
    fix f assume "f \<in> set ?fs1"
    then have "f \<in> set fs \<or> f = rewritten a ?g (fs ! unat u)"
      by (auto dest: set_update_subset_insert [THEN subsetD] split: if_splits)
    then show "unat (edges f) \<le> length (getIdx a f)"
      using Cons.prems(1) wfu by auto
  qed
  have us1: "\<And>u'. u' \<in> set us \<Longrightarrow> unat u' < length ?fs1"
    using Cons.prems(2) by simp
  from Cons.IH [OF wf1 us1] obtain fs' where
    r: "remapUse a vidx cur us ?fs1 = Inr fs'" and len: "length fs' = length ?fs1"
    and nth: "\<forall>k<length ?fs1. fs' ! k =
              (if (\<exists>u\<in>set us. unat u = k) \<and> \<not> complete (?fs1 ! k)
               then rewritten a ?g (?fs1 ! k) else ?fs1 ! k)"
    by blast
  have idem: "\<And>x. ?g (?g x) = ?g x" by simp
  have "\<forall>k<length fs. fs' ! k =
              (if (\<exists>u'\<in>set (u # us). unat u' = k) \<and> \<not> complete (fs ! k)
               then rewritten a ?g (fs ! k) else fs ! k)"
  proof (intro allI impI)
    fix k assume k: "k < length fs"
    then have k1: "k < length ?fs1" by simp
    show "fs' ! k = (if (\<exists>u'\<in>set (u # us). unat u' = k) \<and> \<not> complete (fs ! k)
               then rewritten a ?g (fs ! k) else fs ! k)"
    proof (cases "k = unat u")
      case True
      show ?thesis
      proof (cases "complete (fs ! k)")
        case c: True
        then show ?thesis using nth k1 True by simp
      next
        case c: False
        then have "?fs1 ! k = rewritten a ?g (fs ! k)" using True k by simp
        then show ?thesis
          using nth k1 True c rewritten_idem [of ?g "fs ! unat u" a, OF idem wfu] by simp
      qed
    next
      case False
      then have "?fs1 ! k = fs ! k" by simp
      then show ?thesis using nth k1 False by auto
    qed
  qed
  with step r len show ?case by simp
qed

lemma putIdx_rest_edges:
  "putIdx a [] (f \<lparr> complete := c \<rparr>) = putIdx a [] (f0 \<lparr> complete := c \<rparr>) \<Longrightarrow> edges f = edges f0"
  by (cases a) (auto dest: arg_cong [where f = edges])

lemma rframe_edges: "rframe a fs0 fs \<Longrightarrow> k < length fs0 \<Longrightarrow> edges (fs ! k) = edges (fs0 ! k)"
  unfolding rframe_def by (blast intro: putIdx_rest_edges)

lemma rframe_refl: "rframe a fs fs"
  by (simp add: rframe_def)

lemma rewritten_rest_complete:
  "putIdx a [] ((rewritten a g f) \<lparr> complete := c \<rparr>) = putIdx a [] (f \<lparr> complete := c \<rparr>)"
  by (cases a) (simp_all add: rewritten_def)

lemma unat_of_nat_le: "unat (of_nat n :: u32) \<le> n"
  by (simp add: unat_of_nat)

lemma filter_update_mset:
  "i < length xs \<Longrightarrow> P (xs ! i) \<Longrightarrow> \<not> P y \<Longrightarrow>
   mset (filter P (xs [i := y])) + {#xs ! i#} = mset (filter P xs)"
proof (induction xs arbitrary: i)
  case Nil
  then show ?case by simp
next
  case (Cons x xs)
  then show ?case by (cases i) auto
qed

lemma rinv_cur_le:
  assumes "rinv a isf fs0 xs0 i st"
  shows "r_cur st \<le> length xs0"
proof -
  have "mset (r_new st) + mset (filter (\<lambda>x. \<not> isf x) (r_old st)) = mset xs0"
    using assms by (simp add: rinv_def)
  then have "size (mset (r_new st) + mset (filter (\<lambda>x. \<not> isf x) (r_old st))) = size (mset xs0)"
    by simp
  then have "length (r_new st) \<le> length xs0" by simp
  then show ?thesis using assms by (simp add: rinv_def)
qed

lemma corner_inv_process:
  fixes st st' :: "'a reindexState"
  assumes ci: "corner_inv a isf fs0 st k l"
    and l: "l < unat (edges (fs0 ! k))"
    and len: "unat (edges (fs0 ! k)) \<le> length (getIdx a (r_faces st ! k))"
    and ed: "edges (r_faces st ! k) = edges (fs0 ! k)"
    and x: "unat vidx < length (r_old st)" and lu: "length (r_use st) = length (r_old st)"
    and nf: "\<not> isf (r_old st ! unat vidx)" and sf: "isf y"
    and fk: "r_faces st' ! k =
               (if (\<exists>u\<in>set (r_use st ! unat vidx). unat u = k) \<and> \<not> complete (r_faces st ! k)
                then rewritten a (\<lambda>x. if x = vidx then of_nat (r_cur st) else x) (r_faces st ! k)
                else r_faces st ! k)"
    and use': "r_use st' = (r_use st) [unat vidx := []]"
    and old': "r_old st' = (r_old st) [unat vidx := y]"
    and cur': "r_cur st' = r_cur st + 1"
  shows "corner_inv a isf fs0 st' k l"
proof -
  define ov where "ov = getIdx a (fs0 ! k) ! l"
  define c where "c = getIdx a (r_faces st ! k) ! l"
  define c' where "c' = getIdx a (r_faces st' ! k) ! l"
  let ?hit = "(\<exists>u\<in>set (r_use st ! unat vidx). unat u = k) \<and> \<not> complete (r_faces st ! k)"
  have ll: "l < length (getIdx a (r_faces st ! k))" using l len by simp
  have c'_eq: "c' = (if ?hit then (if c = vidx then of_nat (r_cur st) else c) else c)"
    unfolding c'_def c_def fk using ll len l ed by (simp add: rewritten_nth)
  have compl: "complete (r_faces st' ! k) = complete (r_faces st ! k)"
    unfolding fk by simp
  from ci have ovl: "unat ov < length (r_old st)"
    and A: "isf (r_old st ! unat ov) \<Longrightarrow> unat c < r_cur st"
    and B: "\<not> isf (r_old st ! unat ov) \<Longrightarrow>
              c = ov \<and> (\<exists>u\<in>set (r_use st ! unat ov). unat u = k) \<and> \<not> complete (r_faces st ! k)"
    by (simp_all add: corner_inv_def Let_def ov_def c_def)
  have bound: "unat (of_nat (r_cur st) :: u32) < r_cur st + 1"
    using unat_of_nat_le [of "r_cur st"] by simp
  have goal: "unat ov < length (r_old st') \<and>
      (if isf (r_old st' ! unat ov) then unat c' < r_cur st'
       else c' = ov \<and> (\<exists>u\<in>set (r_use st' ! unat ov). unat u = k) \<and> \<not> complete (r_faces st' ! k))"
  proof (cases "isf (r_old st ! unat ov)")
    case True
    have f': "isf (r_old st' ! unat ov)"
      unfolding old' using True sf ovl by (cases "unat ov = unat vidx") simp_all
    have "unat c' < r_cur st + 1"
      using A [OF True] bound by (simp add: c'_eq)
    with f' ovl show ?thesis by (simp add: old' cur')
  next
    case False
    note b = B [OF False]
    show ?thesis
    proof (cases "unat ov = unat vidx")
      case True
      then have eq: "ov = vidx" by (simp add: word_unat_eq_iff)
      have f': "isf (r_old st' ! unat ov)"
        unfolding old' using True sf ovl by simp
      have "c' = of_nat (r_cur st)" using b eq by (simp add: c'_eq)
      with bound f' ovl show ?thesis by (simp add: old' cur')
    next
      case ne: False
      then have neq: "ov \<noteq> vidx" by auto
      have f': "\<not> isf (r_old st' ! unat ov)"
        unfolding old' using ne False by simp
      have "c' = ov" using b neq by (simp add: c'_eq)
      moreover have "r_use st' ! unat ov = r_use st ! unat ov"
        unfolding use' using ne by simp
      ultimately show ?thesis using f' b ovl compl by (simp add: old')
    qed
  qed
  then show ?thesis
    unfolding corner_inv_def Let_def ov_def c'_def .
qed

lemma rframe_wf:
  assumes "rframe a fs0 fs"
    and "\<And>k. k < length fs0 \<Longrightarrow> unat (edges (fs0 ! k)) \<le> length (getIdx a (fs0 ! k))"
    and "f \<in> set fs"
  shows "unat (edges f) \<le> length (getIdx a f)"
proof -
  from assms(3) obtain k where k: "k < length fs" "f = fs ! k" by (auto simp: in_set_conv_nth)
  with assms(1) have k0: "k < length fs0" by (simp add: rframe_def)
  have "edges f = edges (fs0 ! k)" using rframe_edges [OF assms(1) k0] k by simp
  moreover have "length (getIdx a f) = length (getIdx a (fs0 ! k))"
    using assms(1) k0 k by (simp add: rframe_def)
  ultimately show ?thesis using assms(2) [OF k0] by simp
qed

lemma rinv_process:
  fixes st :: "'a reindexState"
  assumes W: "\<And>k. k < length fs0 \<Longrightarrow> unat (edges (fs0 ! k)) \<le> length (getIdx a (fs0 ! k))"
    and inv: "rinv a isf fs0 xs0 i st"
    and x: "unat vidx < length xs0" and nf: "\<not> isf (r_old st ! unat vidx)" and sf: "isf y"
  shows "\<exists>fs'. remapUse a vidx (r_cur st) (r_use st ! unat vidx) (r_faces st) = Inr fs' \<and>
           rinv a isf fs0 xs0 i
             (st \<lparr> r_faces := fs',
                   r_use := (r_use st) [unat vidx := []],
                   r_new := r_new st @ [r_old st ! unat vidx],
                   r_old := (r_old st) [unat vidx := y],
                   r_cur := r_cur st + 1 \<rparr>)"
proof -
  let ?g = "\<lambda>x. if x = vidx then (of_nat (r_cur st) :: u32) else x"
  from inv have fr: "rframe a fs0 (r_faces st)"
    and compl: "\<forall>k<length fs0. complete (r_faces st ! k) = (k < i)"
    and lo: "length (r_old st) = length xs0" and lu: "length (r_use st) = length xs0"
    and cur: "r_cur st = length (r_new st)"
    and ms: "mset (r_new st) + mset (filter (\<lambda>x. \<not> isf x) (r_old st)) = mset xs0"
    and ub: "\<forall>x<length xs0. \<forall>u\<in>set (r_use st ! x). unat u < length fs0"
    and ci: "\<forall>k<length fs0. \<forall>l<unat (edges (fs0 ! k)). corner_inv a isf fs0 st k l"
    by (simp_all add: rinv_def)
  have len: "length (r_faces st) = length fs0" using fr by (simp add: rframe_def)
  have wf: "\<And>f. f \<in> set (r_faces st) \<Longrightarrow> unat (edges f) \<le> length (getIdx a f)"
    by (rule rframe_wf [OF fr W])
  have us: "\<And>u. u \<in> set (r_use st ! unat vidx) \<Longrightarrow> unat u < length (r_faces st)"
    using ub x len by simp
  from remapUse_result [where vidx = vidx and cur = "r_cur st", OF wf us] obtain fs' where
    r: "remapUse a vidx (r_cur st) (r_use st ! unat vidx) (r_faces st) = Inr fs'"
    and len': "length fs' = length (r_faces st)"
    and nth': "\<forall>k<length (r_faces st). fs' ! k =
              (if (\<exists>u\<in>set (r_use st ! unat vidx). unat u = k) \<and> \<not> complete (r_faces st ! k)
               then rewritten a ?g (r_faces st ! k) else r_faces st ! k)"
    by blast
  let ?st' = "st \<lparr> r_faces := fs',
                   r_use := (r_use st) [unat vidx := []],
                   r_new := r_new st @ [r_old st ! unat vidx],
                   r_old := (r_old st) [unat vidx := y],
                   r_cur := r_cur st + 1 \<rparr>"
  have wfk: "\<And>k. k < length fs0 \<Longrightarrow> unat (edges (fs0 ! k)) \<le> length (getIdx a (r_faces st ! k))"
    using fr W by (simp add: rframe_def)
  have edk: "\<And>k. k < length fs0 \<Longrightarrow> edges (r_faces st ! k) = edges (fs0 ! k)"
    by (rule rframe_edges [OF fr])
  have fr': "rframe a fs0 fs'"
    unfolding rframe_def
  proof (intro conjI allI impI)
    show "length fs' = length fs0" using len' len by simp
  next
    fix k assume k: "k < length fs0"
    then have fk: "fs' ! k = rewritten a ?g (r_faces st ! k) \<or> fs' ! k = r_faces st ! k"
      using nth' len by auto
    have old: "putIdx a [] ((r_faces st ! k) \<lparr> complete := False \<rparr>)
                 = putIdx a [] ((fs0 ! k) \<lparr> complete := False \<rparr>)"
      "length (getIdx a (r_faces st ! k)) = length (getIdx a (fs0 ! k))"
      "drop (unat (edges (fs0 ! k))) (getIdx a (r_faces st ! k))
         = drop (unat (edges (fs0 ! k))) (getIdx a (fs0 ! k))"
      using fr k by (simp_all add: rframe_def)
    show "putIdx a [] ((fs' ! k) \<lparr> complete := False \<rparr>)
            = putIdx a [] ((fs0 ! k) \<lparr> complete := False \<rparr>)"
      using fk old(1) by (auto simp: rewritten_rest_complete)
    show "length (getIdx a (fs' ! k)) = length (getIdx a (fs0 ! k))"
      using fk old(2) by auto
    show "drop (unat (edges (fs0 ! k))) (getIdx a (fs' ! k))
            = drop (unat (edges (fs0 ! k))) (getIdx a (fs0 ! k))"
      using fk old(3) rewritten_drop [of "r_faces st ! k" a ?g] wfk [OF k] edk [OF k] by auto
  qed
  have compl': "\<forall>k<length fs0. complete (fs' ! k) = (k < i)"
    using nth' len compl by auto
  have ms': "mset (r_new ?st') + mset (filter (\<lambda>x. \<not> isf x) (r_old ?st')) = mset xs0"
  proof -
    have e: "mset (filter (\<lambda>x. \<not> isf x) ((r_old st) [unat vidx := y])) + {#r_old st ! unat vidx#}
               = mset (filter (\<lambda>x. \<not> isf x) (r_old st))"
      by (rule filter_update_mset) (use x lo nf sf in simp_all)
    have "mset (r_new ?st') + mset (filter (\<lambda>x. \<not> isf x) (r_old ?st'))
            = mset (r_new st) +
              (mset (filter (\<lambda>x. \<not> isf x) ((r_old st) [unat vidx := y])) + {#r_old st ! unat vidx#})"
      by simp
    also have "\<dots> = mset (r_new st) + mset (filter (\<lambda>x. \<not> isf x) (r_old st))"
      by (simp only: e)
    also have "\<dots> = mset xs0" by (rule ms)
    finally show ?thesis .
  qed
  have ub': "\<forall>x<length xs0. \<forall>u\<in>set (r_use ?st' ! x). unat u < length fs0"
  proof (intro allI impI ballI)
    fix x' u assume x': "x' < length xs0" and u: "u \<in> set (r_use ?st' ! x')"
    show "unat u < length fs0"
    proof (cases "x' = unat vidx")
      case True
      with u x lu show ?thesis by simp
    next
      case False
      with u have "u \<in> set (r_use st ! x')" by simp
      with ub x' show ?thesis by blast
    qed
  qed
  have ci': "\<forall>k<length fs0. \<forall>l<unat (edges (fs0 ! k)). corner_inv a isf fs0 ?st' k l"
  proof (intro allI impI)
    fix k l assume k: "k < length fs0" and l: "l < unat (edges (fs0 ! k))"
    show "corner_inv a isf fs0 ?st' k l"
    proof (rule corner_inv_process [where st = st and y = y and vidx = vidx])
      show "corner_inv a isf fs0 st k l" using ci k l by blast
      show "l < unat (edges (fs0 ! k))" by (rule l)
      show "unat (edges (fs0 ! k)) \<le> length (getIdx a (r_faces st ! k))" by (rule wfk [OF k])
      show "edges (r_faces st ! k) = edges (fs0 ! k)" by (rule edk [OF k])
      show "unat vidx < length (r_old st)" using x lo by simp
      show "length (r_use st) = length (r_old st)" using lo lu by simp
      show "\<not> isf (r_old st ! unat vidx)" by (rule nf)
      show "isf y" by (rule sf)
      show "r_faces ?st' ! k =
               (if (\<exists>u\<in>set (r_use st ! unat vidx). unat u = k) \<and> \<not> complete (r_faces st ! k)
                then rewritten a ?g (r_faces st ! k) else r_faces st ! k)"
        using nth' k len by simp
    qed simp_all
  qed
  have "rinv a isf fs0 xs0 i ?st'"
    unfolding rinv_def
    using fr' compl' lo lu cur ms' ub' ci' by simp
  with r show ?thesis by blast
qed

lemma rinv_flag_mono_process:
  "isf ((xs :: 'a list) ! z) \<Longrightarrow> isf y \<Longrightarrow> z < length xs \<Longrightarrow> isf (xs [x := y] ! z)"
  by (cases "z = x") simp_all

lemma visitCorner_step:
  fixes st :: "'a reindexState"
  assumes W: "\<And>k. k < length fs0 \<Longrightarrow> unat (edges (fs0 ! k)) \<le> length (getIdx a (fs0 ! k))"
    and sf: "\<And>x. isf (setf x)"
    and inv: "rinv a isf fs0 xs0 i st"
    and i: "i < length fs0" and j: "j < unat (edges (fs0 ! i))"
    and Q: "\<forall>l<j. isf (r_old st ! unat (getIdx a (fs0 ! i) ! l))"
  shows "\<exists>st'. visitCorner a isf setf i j st = Inr st' \<and> rinv a isf fs0 xs0 i st' \<and>
           (\<forall>l<Suc j. isf (r_old st' ! unat (getIdx a (fs0 ! i) ! l)))"
proof -
  from inv have fr: "rframe a fs0 (r_faces st)"
    and lo: "length (r_old st) = length xs0" and lu: "length (r_use st) = length xs0"
    and ci: "\<forall>k<length fs0. \<forall>l<unat (edges (fs0 ! k)). corner_inv a isf fs0 st k l"
    by (simp_all add: rinv_def)
  define c where "c = getIdx a (r_faces st ! i) ! j"
  define ov where "ov = getIdx a (fs0 ! i) ! j"
  have jl: "j < length (getIdx a (r_faces st ! i))"
    using fr i j W [OF i] by (simp add: rframe_def)
  from ci i j have cij: "corner_inv a isf fs0 st i j" by blast
  then have ovl: "unat ov < length xs0"
    and A: "isf (r_old st ! unat ov) \<Longrightarrow> unat c < r_cur st"
    and B: "\<not> isf (r_old st ! unat ov) \<Longrightarrow> c = ov"
    using lo by (simp_all add: corner_inv_def Let_def ov_def c_def)
  have cl: "unat c < length xs0"
    using A B ovl rinv_cur_le [OF inv] by (cases "isf (r_old st ! unat ov)") auto
  have ovs: "\<And>l. l < unat (edges (fs0 ! i)) \<Longrightarrow> unat (getIdx a (fs0 ! i) ! l) < length xs0"
    using ci i lo by (auto simp: corner_inv_def Let_def)
  show ?thesis
  proof (cases "isf (r_old st ! unat c)")
    case True
    have v: "visitCorner a isf setf i j st = Inr st"
      using jl cl lo lu True by (simp add: visitCorner_def Let_def c_def)
    have "isf (r_old st ! unat ov)"
      using True B by (cases "isf (r_old st ! unat ov)") auto
    then have "\<forall>l<Suc j. isf (r_old st ! unat (getIdx a (fs0 ! i) ! l))"
      using Q by (auto simp: less_Suc_eq ov_def)
    with v inv show ?thesis by simp
  next
    case False
    from rinv_process [OF W inv cl False sf [of "r_old st ! unat c"]] obtain fs' where
      r: "remapUse a c (r_cur st) (r_use st ! unat c) (r_faces st) = Inr fs'"
      and inv': "rinv a isf fs0 xs0 i
             (st \<lparr> r_faces := fs',
                   r_use := (r_use st) [unat c := []],
                   r_new := r_new st @ [r_old st ! unat c],
                   r_old := (r_old st) [unat c := setf (r_old st ! unat c)],
                   r_cur := r_cur st + 1 \<rparr>)"
      by blast
    define st' where "st' = st \<lparr> r_faces := fs',
                   r_use := (r_use st) [unat c := []],
                   r_new := r_new st @ [r_old st ! unat c],
                   r_old := (r_old st) [unat c := setf (r_old st ! unat c)],
                   r_cur := r_cur st + 1 \<rparr>"
    have v: "visitCorner a isf setf i j st = Inr st'"
      unfolding visitCorner_def Let_def c_def [symmetric] st'_def
      using jl cl lo lu False r by simp
    have old': "r_old st' = (r_old st) [unat c := setf (r_old st ! unat c)]"
      by (simp add: st'_def)
    have Q': "\<forall>l<Suc j. isf (r_old st' ! unat (getIdx a (fs0 ! i) ! l))"
    proof (intro allI impI)
      fix l assume l: "l < Suc j"
      show "isf (r_old st' ! unat (getIdx a (fs0 ! i) ! l))"
      proof (cases "l = j")
        case lj: True
        show ?thesis
        proof (cases "isf (r_old st ! unat ov)")
          case True
          then show ?thesis
            unfolding old' lj ov_def [symmetric]
            using sf ovl lo by (simp add: rinv_flag_mono_process)
        next
          case nf: False
          then have "c = ov" by (rule B)
          then show ?thesis
            unfolding old' lj ov_def [symmetric] using sf ovl lo by simp
        qed
      next
        case False
        with l have lt: "l < j" by simp
        then have "isf (r_old st ! unat (getIdx a (fs0 ! i) ! l))" using Q by blast
        moreover have "unat (getIdx a (fs0 ! i) ! l) < length (r_old st)"
          using ovs [of l] lt j lo by simp
        ultimately show ?thesis
          unfolding old' using sf by (simp add: rinv_flag_mono_process)
      qed
    qed
    from inv' have "rinv a isf fs0 xs0 i st'" by (simp only: st'_def)
    with v Q' show ?thesis by blast
  qed
qed

lemma getIdx_complete [simp]: "getIdx a (f \<lparr> complete := c \<rparr>) = getIdx a f"
  by (cases a) simp_all

lemma putIdx_complete_twice [simp]:
  "putIdx a s (f \<lparr> complete := c, complete := c' \<rparr>) = putIdx a s (f \<lparr> complete := c' \<rparr>)"
  by (cases a) simp_all

lemma visitFace_step:
  fixes st :: "'a reindexState"
  assumes W: "\<And>k. k < length fs0 \<Longrightarrow> unat (edges (fs0 ! k)) \<le> length (getIdx a (fs0 ! k))"
    and sf: "\<And>x. isf (setf x)"
    and inv: "rinv a isf fs0 xs0 i st"
    and i: "i < length fs0"
  shows "\<exists>st'. visitFace a isf setf i st = Inr st' \<and> rinv a isf fs0 xs0 (Suc i) st'"
proof -
  define e where "e = unat (edges (fs0 ! i))"
  have fr: "rframe a fs0 (r_faces st)" using inv by (simp add: rinv_def)
  have ed: "unat (edges (r_faces st ! i)) = e"
    using rframe_edges [OF fr i] by (simp add: e_def)
  let ?J = "\<lambda>j t. rinv a isf fs0 xs0 i t \<and> (\<forall>l<j. isf (r_old t ! unat (getIdx a (fs0 ! i) ! l)))"
  have "\<exists>st'. iter (visitCorner a isf setf i) [0 ..< e] st = Inr st' \<and> ?J (max 0 e) st'"
  proof (rule iter_upt_total)
    show "?J 0 st" using inv by simp
  next
    fix j t assume "j < e" and "?J j t"
    then show "\<exists>s'. visitCorner a isf setf i j t = Inr s' \<and> ?J (Suc j) s'"
      using visitCorner_step [where isf = isf and setf = setf and ?fs0.0 = fs0 and a = a
          and ?xs0.0 = xs0 and st = t and j = j, OF W sf _ i]
      by (simp add: e_def)
  qed
  then obtain st1 where it: "iter (visitCorner a isf setf i) [0 ..< e] st = Inr st1"
    and inv1: "rinv a isf fs0 xs0 i st1"
    and Q1: "\<forall>l<e. isf (r_old st1 ! unat (getIdx a (fs0 ! i) ! l))"
    by auto
  define st2 where
    "st2 = st1 \<lparr> r_faces := (r_faces st1) [i := (r_faces st1 ! i) \<lparr> complete := True \<rparr>] \<rparr>"
  have v: "visitFace a isf setf i st = Inr st2"
    by (simp add: visitFace_def ed it st2_def)
  from inv1 have fr1: "rframe a fs0 (r_faces st1)"
    and compl1: "\<forall>k<length fs0. complete (r_faces st1 ! k) = (k < i)"
    and lo: "length (r_old st1) = length xs0" and lu: "length (r_use st1) = length xs0"
    and cur: "r_cur st1 = length (r_new st1)"
    and ms: "mset (r_new st1) + mset (filter (\<lambda>x. \<not> isf x) (r_old st1)) = mset xs0"
    and ub: "\<forall>x<length xs0. \<forall>u\<in>set (r_use st1 ! x). unat u < length fs0"
    and ci: "\<forall>k<length fs0. \<forall>l<unat (edges (fs0 ! k)). corner_inv a isf fs0 st1 k l"
    by (simp_all add: rinv_def)
  have len1: "length (r_faces st1) = length fs0" using fr1 by (simp add: rframe_def)
  have nth2: "\<And>k. k < length fs0 \<Longrightarrow> r_faces st2 ! k =
                 (if k = i then (r_faces st1 ! i) \<lparr> complete := True \<rparr> else r_faces st1 ! k)"
    using len1 by (simp add: st2_def nth_list_update)
  have fr2: "rframe a fs0 (r_faces st2)"
    unfolding rframe_def
  proof (intro conjI allI impI)
    show "length (r_faces st2) = length fs0" using len1 by (simp add: st2_def)
  next
    fix k assume k: "k < length fs0"
    have old: "putIdx a [] ((r_faces st1 ! k) \<lparr> complete := False \<rparr>)
                 = putIdx a [] ((fs0 ! k) \<lparr> complete := False \<rparr>)"
      "length (getIdx a (r_faces st1 ! k)) = length (getIdx a (fs0 ! k))"
      "drop (unat (edges (fs0 ! k))) (getIdx a (r_faces st1 ! k))
         = drop (unat (edges (fs0 ! k))) (getIdx a (fs0 ! k))"
      using fr1 k by (simp_all add: rframe_def)
    show "putIdx a [] ((r_faces st2 ! k) \<lparr> complete := False \<rparr>)
            = putIdx a [] ((fs0 ! k) \<lparr> complete := False \<rparr>)"
      using old(1) by (auto simp: nth2 [OF k])
    show "length (getIdx a (r_faces st2 ! k)) = length (getIdx a (fs0 ! k))"
      using old(2) by (auto simp: nth2 [OF k])
    show "drop (unat (edges (fs0 ! k))) (getIdx a (r_faces st2 ! k))
            = drop (unat (edges (fs0 ! k))) (getIdx a (fs0 ! k))"
      using old(3) by (auto simp: nth2 [OF k])
  qed
  have compl2: "\<forall>k<length fs0. complete (r_faces st2 ! k) = (k < Suc i)"
    using compl1 by (auto simp: nth2 less_Suc_eq)
  have rest: "r_old st2 = r_old st1" "r_use st2 = r_use st1" "r_new st2 = r_new st1"
    "r_cur st2 = r_cur st1"
    by (simp_all add: st2_def)
  have ci2: "\<forall>k<length fs0. \<forall>l<unat (edges (fs0 ! k)). corner_inv a isf fs0 st2 k l"
  proof (intro allI impI)
    fix k l assume k: "k < length fs0" and l: "l < unat (edges (fs0 ! k))"
    from ci k l have c1: "corner_inv a isf fs0 st1 k l" by blast
    show "corner_inv a isf fs0 st2 k l"
    proof (cases "k = i")
      case False
      with c1 show ?thesis by (simp add: corner_inv_def Let_def rest nth2 [OF k])
    next
      case True
      with l Q1 have "isf (r_old st1 ! unat (getIdx a (fs0 ! k) ! l))" by (simp add: e_def)
      with c1 show ?thesis by (auto simp: corner_inv_def Let_def rest nth2 [OF k])
    qed
  qed
  have "rinv a isf fs0 xs0 (Suc i) st2"
    unfolding rinv_def rest
    using fr2 compl2 lo lu cur ms ub ci2 by simp
  with v show ?thesis by blast
qed

lemma reindex_loop:
  fixes st :: "'a reindexState"
  assumes W: "\<And>k. k < length fs0 \<Longrightarrow> unat (edges (fs0 ! k)) \<le> length (getIdx a (fs0 ! k))"
    and sf: "\<And>x. isf (setf x)"
    and inv: "rinv a isf fs0 xs0 0 st"
  shows "\<exists>st'. iter (visitFace a isf setf) [0 ..< length fs0] st = Inr st' \<and>
           rinv a isf fs0 xs0 (length fs0) st'"
proof -
  have "\<exists>st'. iter (visitFace a isf setf) [0 ..< length fs0] st = Inr st' \<and>
           rinv a isf fs0 xs0 (max 0 (length fs0)) st'"
  proof (rule iter_upt_total)
    show "rinv a isf fs0 xs0 0 st" by (rule inv)
  next
    fix i t assume "i < length fs0" and "rinv a isf fs0 xs0 i t"
    then show "\<exists>s'. visitFace a isf setf i t = Inr s' \<and> rinv a isf fs0 xs0 (Suc i) s'"
      using visitFace_step [where isf = isf and setf = setf and ?fs0.0 = fs0 and a = a, OF W sf]
      by blast
  qed
  then show ?thesis by simp
qed

lemma addUse_step:
  assumes "j < length (getIdx a (fs ! i))" and "unat (getIdx a (fs ! i) ! j) < length use"
  shows "\<exists>use'. addUse a fs i j use = Inr use' \<and> length use' = length use \<and>
           of_nat i \<in> set (use' ! unat (getIdx a (fs ! i) ! j)) \<and>
           (\<forall>x<length use. set (use ! x) \<subseteq> set (use' ! x) \<and>
                             set (use' ! x) \<subseteq> insert (of_nat i) (set (use ! x)))"
proof -
  define y where "y = unat (getIdx a (fs ! i) ! j)"
  have r: "addUse a fs i j use = Inr (use [y := use ! y @ [of_nat i]])"
    using assms by (simp add: addUse_def Let_def y_def)
  have "\<forall>x<length use. set (use ! x) \<subseteq> set ((use [y := use ! y @ [of_nat i]]) ! x) \<and>
          set ((use [y := use ! y @ [of_nat i]]) ! x) \<subseteq> insert (of_nat i) (set (use ! x))"
  proof (intro allI impI)
    fix x assume "x < length use"
    then show "set (use ! x) \<subseteq> set ((use [y := use ! y @ [of_nat i]]) ! x) \<and>
          set ((use [y := use ! y @ [of_nat i]]) ! x) \<subseteq> insert (of_nat i) (set (use ! x))"
      by (cases "x = y") auto
  qed
  moreover have "of_nat i \<in> set ((use [y := use ! y @ [of_nat i]]) ! y)"
    using assms(2) by (simp add: y_def)
  ultimately show ?thesis using r by (simp add: y_def)
qed

lemma use_inv_step:
  assumes V: "\<And>k l. k < length fs \<Longrightarrow> l < unat (edges (fs ! k)) \<Longrightarrow>
                 l < length (getIdx a (fs ! k)) \<and> unat (getIdx a (fs ! k) ! l) < n"
    and inv: "use_inv a fs n i j use" and i: "i < length fs" and j: "j < unat (edges (fs ! i))"
  shows "\<exists>use'. addUse a fs i j use = Inr use' \<and> use_inv a fs n i (Suc j) use'"
proof -
  from inv have len: "length use = n"
    and ub: "\<forall>x<n. \<forall>u\<in>set (use ! x). unat u < length fs"
    and prev: "\<forall>k<i. \<forall>l<unat (edges (fs ! k)). of_nat k \<in> set (use ! unat (getIdx a (fs ! k) ! l))"
    and cur: "\<forall>l<j. of_nat i \<in> set (use ! unat (getIdx a (fs ! i) ! l))"
    by (simp_all add: use_inv_def)
  from V [OF i j] len have a1: "j < length (getIdx a (fs ! i))"
    and a2: "unat (getIdx a (fs ! i) ! j) < length use" by simp_all
  from addUse_step [OF a1 a2] obtain use' where
    r: "addUse a fs i j use = Inr use'" and len': "length use' = length use"
    and mem: "of_nat i \<in> set (use' ! unat (getIdx a (fs ! i) ! j))"
    and mono: "\<forall>x<length use. set (use ! x) \<subseteq> set (use' ! x) \<and>
                             set (use' ! x) \<subseteq> insert (of_nat i) (set (use ! x))"
    by blast
  have ui: "unat (of_nat i :: u32) < length fs"
    using unat_of_nat_le [of i] i by simp
  have ub': "\<forall>x<n. \<forall>u\<in>set (use' ! x). unat u < length fs"
  proof (intro allI impI ballI)
    fix x u assume x: "x < n" and u: "u \<in> set (use' ! x)"
    with mono len have "u = of_nat i \<or> u \<in> set (use ! x)" by auto
    with ui ub x show "unat u < length fs" by auto
  qed
  have prev': "\<forall>k<i. \<forall>l<unat (edges (fs ! k)). of_nat k \<in> set (use' ! unat (getIdx a (fs ! k) ! l))"
  proof (intro allI impI)
    fix k l assume k: "k < i" and l: "l < unat (edges (fs ! k))"
    with i have "unat (getIdx a (fs ! k) ! l) < length use" using V [of k l] len by simp
    with mono prev k l show "of_nat k \<in> set (use' ! unat (getIdx a (fs ! k) ! l))" by blast
  qed
  have cur': "\<forall>l<Suc j. of_nat i \<in> set (use' ! unat (getIdx a (fs ! i) ! l))"
  proof (intro allI impI)
    fix l assume l: "l < Suc j"
    show "of_nat i \<in> set (use' ! unat (getIdx a (fs ! i) ! l))"
    proof (cases "l = j")
      case True
      with mem show ?thesis by simp
    next
      case False
      with l have lj: "l < j" by simp
      with j have "unat (getIdx a (fs ! i) ! l) < length use" using V [OF i, of l] len by simp
      with mono cur lj show ?thesis by blast
    qed
  qed
  show ?thesis
    using r len len' ub' prev' cur' by (simp add: use_inv_def)
qed

lemma buildUse_ok:
  assumes V: "\<And>k l. k < length fs \<Longrightarrow> l < unat (edges (fs ! k)) \<Longrightarrow>
                 l < length (getIdx a (fs ! k)) \<and> unat (getIdx a (fs ! k) ! l) < n"
  shows "\<exists>use. buildUse a fs n = Inr use \<and> length use = n \<and>
           (\<forall>x<n. \<forall>u\<in>set (use ! x). unat u < length fs) \<and>
           (\<forall>k<length fs. \<forall>l<unat (edges (fs ! k)).
               of_nat k \<in> set (use ! unat (getIdx a (fs ! k) ! l)))"
proof -
  have "\<exists>use. iter (\<lambda>i use. iter (addUse a fs i) [0 ..< unat (edges (fs ! i))] use)
                  [0 ..< length fs] (replicate n []) = Inr use \<and>
               (\<lambda>i. use_inv a fs n i 0) (max 0 (length fs)) use"
  proof (rule iter_upt_total)
    show "use_inv a fs n 0 0 (replicate n [])" by (simp add: use_inv_def)
  next
    fix i use assume i: "i < length fs" and inv: "use_inv a fs n i 0 use"
    have "\<exists>use'. iter (addUse a fs i) [0 ..< unat (edges (fs ! i))] use = Inr use' \<and>
                   use_inv a fs n i (max 0 (unat (edges (fs ! i)))) use'"
    proof (rule iter_upt_total)
      show "use_inv a fs n i 0 use" by (rule inv)
    next
      fix j u assume "j < unat (edges (fs ! i))" and "use_inv a fs n i j u"
      then show "\<exists>s'. addUse a fs i j u = Inr s' \<and> use_inv a fs n i (Suc j) s'"
        using use_inv_step [OF V _ i] by blast
    qed
    then obtain use' where
      r: "iter (addUse a fs i) [0 ..< unat (edges (fs ! i))] use = Inr use'"
      and inv': "use_inv a fs n i (unat (edges (fs ! i))) use'" by auto
    have "use_inv a fs n (Suc i) 0 use'"
      using inv' by (auto simp: use_inv_def less_Suc_eq)
    with r show "\<exists>s'. iter (addUse a fs i) [0 ..< unat (edges (fs ! i))] use = Inr s' \<and>
                       use_inv a fs n (Suc i) 0 s'"
      by blast
  qed
  then show ?thesis by (auto simp: buildUse_def use_inv_def)
qed

lemma reindex_ok:
  fixes xs :: "'a list"
  assumes sf: "\<And>x. isf (setf x)" and nfl: "\<And>x. x \<in> set xs \<Longrightarrow> \<not> isf x"
    and V: "\<And>k l. k < length fs \<Longrightarrow> l < unat (edges (fs ! k)) \<Longrightarrow>
                 l < length (getIdx a (fs ! k)) \<and> unat (getIdx a (fs ! k) ! l) < length xs"
    and big: "length fs \<le> 2 ^ 32"
  shows "\<exists>fs' xs'. reindex a isf setf fs xs = Inr (fs', xs') \<and>
           rframe a (map (\<lambda>f. f \<lparr> complete := False \<rparr>) fs) fs' \<and>
           (\<forall>k<length fs. \<forall>l<unat (edges (fs ! k)). unat (getIdx a (fs' ! k) ! l) < length xs') \<and>
           mset xs' \<subseteq># mset xs \<and>
           ((\<forall>x<length xs. \<exists>k<length fs. \<exists>l<unat (edges (fs ! k)).
                 unat (getIdx a (fs ! k) ! l) = x) \<longrightarrow> mset xs' = mset xs)"
proof -
  define fs0 where "fs0 = map (\<lambda>f. f \<lparr> complete := False \<rparr>) fs"
  have l0: "length fs0 = length fs" by (simp add: fs0_def)
  have e0: "\<And>k. k < length fs \<Longrightarrow> edges (fs0 ! k) = edges (fs ! k)"
    by (simp add: fs0_def)
  have g0: "\<And>k. k < length fs \<Longrightarrow> getIdx a (fs0 ! k) = getIdx a (fs ! k)"
    by (simp add: fs0_def)
  have c0: "\<And>k. k < length fs \<Longrightarrow> \<not> complete (fs0 ! k)"
    by (simp add: fs0_def)
  have V0: "\<And>k l. k < length fs0 \<Longrightarrow> l < unat (edges (fs0 ! k)) \<Longrightarrow>
                 l < length (getIdx a (fs0 ! k)) \<and> unat (getIdx a (fs0 ! k) ! l) < length xs"
    using V by (simp add: l0 e0 g0)
  have W: "\<And>k. k < length fs0 \<Longrightarrow> unat (edges (fs0 ! k)) \<le> length (getIdx a (fs0 ! k))"
  proof (rule ccontr)
    fix k assume k: "k < length fs0" and n: "\<not> unat (edges (fs0 ! k)) \<le> length (getIdx a (fs0 ! k))"
    then have "length (getIdx a (fs0 ! k)) < unat (edges (fs0 ! k))" by simp
    from V0 [OF k this] show False by simp
  qed
  from buildUse_ok [of fs0 a "length xs", OF V0] obtain use where
    bu: "buildUse a fs0 (length xs) = Inr use" and lu: "length use = length xs"
    and ub: "\<forall>x<length xs. \<forall>u\<in>set (use ! x). unat u < length fs0"
    and um: "\<forall>k<length fs0. \<forall>l<unat (edges (fs0 ! k)).
               of_nat k \<in> set (use ! unat (getIdx a (fs0 ! k) ! l))"
    by blast
  define st0 :: "'a reindexState" where
    "st0 = \<lparr> r_faces = fs0, r_old = xs, r_use = use, r_new = [], r_cur = 0 \<rparr>"
  have filt: "filter (\<lambda>x. \<not> isf x) xs = xs"
    using nfl by (simp add: filter_id_conv)
  have ci0: "\<forall>k<length fs0. \<forall>l<unat (edges (fs0 ! k)). corner_inv a isf fs0 st0 k l"
  proof (intro allI impI)
    fix k l assume k: "k < length fs0" and l: "l < unat (edges (fs0 ! k))"
    from V0 [OF k l] have v: "unat (getIdx a (fs0 ! k) ! l) < length xs" by simp
    then have nf: "\<not> isf (xs ! unat (getIdx a (fs0 ! k) ! l))" using nfl by simp
    have "k < 2 ^ 32" using k big l0 by simp
    then have "unat (of_nat k :: u32) = k" by (simp add: unat_of_nat)
    with um k l have "\<exists>u\<in>set (use ! unat (getIdx a (fs0 ! k) ! l)). unat u = k" by blast
    with v nf c0 k l0 show "corner_inv a isf fs0 st0 k l"
      by (simp add: corner_inv_def Let_def st0_def)
  qed
  have inv0: "rinv a isf fs0 xs 0 st0"
    unfolding rinv_def
    using ci0 ub lu c0 l0 by (simp add: st0_def rframe_refl filt)
  from reindex_loop [where isf = isf and setf = setf, OF W sf inv0] obtain st' where
    it: "iter (visitFace a isf setf) [0 ..< length fs0] st0 = Inr st'"
    and inv': "rinv a isf fs0 xs (length fs0) st'"
    by blast
  have r: "reindex a isf setf fs xs = Inr (r_faces st', r_new st')"
    using bu it by (simp add: reindex_def Let_def fs0_def [symmetric] st0_def)
  from inv' have fr: "rframe a fs0 (r_faces st')"
    and compl: "\<forall>k<length fs0. complete (r_faces st' ! k)"
    and lo: "length (r_old st') = length xs"
    and cur: "r_cur st' = length (r_new st')"
    and ms: "mset (r_new st') + mset (filter (\<lambda>x. \<not> isf x) (r_old st')) = mset xs"
    and ci: "\<forall>k<length fs0. \<forall>l<unat (edges (fs0 ! k)). corner_inv a isf fs0 st' k l"
    by (simp_all add: rinv_def)
  have fin: "\<And>k l. k < length fs \<Longrightarrow> l < unat (edges (fs ! k)) \<Longrightarrow>
               isf (r_old st' ! unat (getIdx a (fs ! k) ! l)) \<and>
               unat (getIdx a (r_faces st' ! k) ! l) < length (r_new st')"
  proof -
    fix k l assume k: "k < length fs" and l: "l < unat (edges (fs ! k))"
    then have "corner_inv a isf fs0 st' k l" using ci by (simp add: l0 e0)
    moreover have "complete (r_faces st' ! k)" using compl k l0 by simp
    ultimately show "isf (r_old st' ! unat (getIdx a (fs ! k) ! l)) \<and>
               unat (getIdx a (r_faces st' ! k) ! l) < length (r_new st')"
      using cur g0 [OF k] by (auto simp: corner_inv_def Let_def split: if_splits)
  qed
  have sub: "mset (r_new st') \<subseteq># mset xs"
    using ms by (metis mset_subset_eq_add_left)
  have full: "(\<forall>x<length xs. \<exists>k<length fs. \<exists>l<unat (edges (fs ! k)).
                 unat (getIdx a (fs ! k) ! l) = x) \<longrightarrow> mset (r_new st') = mset xs"
  proof
    assume all: "\<forall>x<length xs. \<exists>k<length fs. \<exists>l<unat (edges (fs ! k)).
                 unat (getIdx a (fs ! k) ! l) = x"
    have "\<And>y. y \<in> set (r_old st') \<Longrightarrow> isf y"
    proof -
      fix y assume "y \<in> set (r_old st')"
      then obtain x where x: "x < length xs" "y = r_old st' ! x"
        using lo by (auto simp: in_set_conv_nth)
      with all obtain k l where "k < length fs" "l < unat (edges (fs ! k))"
        "unat (getIdx a (fs ! k) ! l) = x" by blast
      with fin [of k l] x show "isf y" by auto
    qed
    then have "filter (\<lambda>x. \<not> isf x) (r_old st') = []" by (simp add: filter_empty_conv)
    with ms show "mset (r_new st') = mset xs" by simp
  qed
  show ?thesis
    using r fr fin sub full unfolding fs0_def by blast
qed

lemma face_ok_all:
  "face_ok sz f \<longleftrightarrow> (edges f = 3 \<or> edges f = 4) \<and> face_t f = [] \<and> (\<forall>a. corners_ok (sz a) a f)"
proof -
  have "(\<forall>a. corners_ok (sz a) a f) \<longleftrightarrow>
          corners_ok (sz VertexIdx) VertexIdx f \<and> corners_ok (sz NormalIdx) NormalIdx f \<and>
          corners_ok (sz UvIdx) UvIdx f"
    by (metis attr.exhaust)
  then show ?thesis by (simp add: face_ok_def)
qed

lemma corners_ok_nth:
  "corners_ok n a f \<longleftrightarrow>
     unat (edges f) \<le> length (getIdx a f) \<and>
     (\<forall>l<unat (edges f). unat (getIdx a f ! l) < n) \<and>
     (\<forall>l<length (getIdx a f). unat (edges f) \<le> l \<longrightarrow> getIdx a f ! l = 0)"
proof -
  have "unat (edges f) \<le> length (getIdx a f) \<Longrightarrow>
        list_all (\<lambda>x. unat x < n) (take (unat (edges f)) (getIdx a f)) \<longleftrightarrow>
        (\<forall>l<unat (edges f). unat (getIdx a f ! l) < n)"
    by (simp add: list_all_length)
  moreover have "unat (edges f) \<le> length (getIdx a f) \<Longrightarrow>
        list_all (\<lambda>x. x = 0) (drop (unat (edges f)) (getIdx a f)) \<longleftrightarrow>
        (\<forall>l<length (getIdx a f). unat (edges f) \<le> l \<longrightarrow> getIdx a f ! l = 0)"
  proof -
    assume le: "unat (edges f) \<le> length (getIdx a f)"
    show ?thesis
    proof
      assume h: "list_all (\<lambda>x. x = 0) (drop (unat (edges f)) (getIdx a f))"
      show "\<forall>l<length (getIdx a f). unat (edges f) \<le> l \<longrightarrow> getIdx a f ! l = 0"
      proof (intro allI impI)
        fix l assume l: "l < length (getIdx a f)" "unat (edges f) \<le> l"
        then have "l - unat (edges f) < length (drop (unat (edges f)) (getIdx a f))" by simp
        with h have "drop (unat (edges f)) (getIdx a f) ! (l - unat (edges f)) = 0"
          by (simp only: list_all_length)
        with l le show "getIdx a f ! l = 0" by simp
      qed
    next
      assume h: "\<forall>l<length (getIdx a f). unat (edges f) \<le> l \<longrightarrow> getIdx a f ! l = 0"
      show "list_all (\<lambda>x. x = 0) (drop (unat (edges f)) (getIdx a f))"
        unfolding list_all_length using h le by simp
    qed
  qed
  ultimately show ?thesis unfolding corners_ok_def by blast
qed

lemma corners_ok_entries:
  assumes "corners_ok n a f" and "0 < unat (edges f)" and "x \<in> set (getIdx a f)"
  shows "unat x < n"
proof -
  from assms(3) obtain l where l: "l < length (getIdx a f)" "x = getIdx a f ! l"
    by (auto simp: in_set_conv_nth)
  from assms(1) have c: "\<forall>l<unat (edges f). unat (getIdx a f ! l) < n"
    "\<forall>l<length (getIdx a f). unat (edges f) \<le> l \<longrightarrow> getIdx a f ! l = 0"
    by (simp_all add: corners_ok_nth)
  from c(1) assms(2) have pos: "0 < n" by fastforce
  show ?thesis
  proof (cases "l < unat (edges f)")
    case True
    with c(1) l show ?thesis by simp
  next
    case False
    with c(2) l have "x = 0" by simp
    with pos show ?thesis by simp
  qed
qed

lemma store_ok_indices_valid:
  assumes "store_ok s"
  shows "indices_valid s"
proof -
  have "\<And>f a x. f \<in> set (faces s) \<Longrightarrow> x \<in> set (getIdx a f) \<Longrightarrow> unat x < sizes s a"
  proof -
    fix f a x assume f: "f \<in> set (faces s)" and x: "x \<in> set (getIdx a f)"
    from assms f have ok: "face_ok (sizes s) f" by (simp add: store_ok_def list_all_iff)
    then have "0 < unat (edges f)" by (auto simp: face_ok_def)
    moreover from ok have "corners_ok (sizes s a) a f" by (simp add: face_ok_all)
    ultimately show "unat x < sizes s a" using x corners_ok_entries by blast
  qed
  from this [of _ _ VertexIdx] this [of _ _ NormalIdx] this [of _ _ UvIdx]
  show ?thesis by (simp add: indices_valid_def list_all_iff)
qed

lemma rframe_other:
  assumes "rframe a fs0 fs" and "k < length fs0" and "b \<noteq> a"
  shows "getIdx b (fs ! k) = getIdx b (fs0 ! k)"
proof -
  from assms(1,2) have "putIdx a [] ((fs ! k) \<lparr> complete := False \<rparr>)
                          = putIdx a [] ((fs0 ! k) \<lparr> complete := False \<rparr>)"
    by (simp add: rframe_def)
  then have "getIdx b (putIdx a [] ((fs ! k) \<lparr> complete := False \<rparr>))
               = getIdx b (putIdx a [] ((fs0 ! k) \<lparr> complete := False \<rparr>))"
    by simp
  with assms(3) show ?thesis by simp
qed

lemma rframe_face_t:
  assumes "rframe a fs0 fs" and "k < length fs0"
  shows "face_t (fs ! k) = face_t (fs0 ! k)"
proof -
  from assms have "putIdx a [] ((fs ! k) \<lparr> complete := False \<rparr>)
                          = putIdx a [] ((fs0 ! k) \<lparr> complete := False \<rparr>)"
    by (simp add: rframe_def)
  then have "face_t (putIdx a [] ((fs ! k) \<lparr> complete := False \<rparr>))
               = face_t (putIdx a [] ((fs0 ! k) \<lparr> complete := False \<rparr>))"
    by simp
  then show ?thesis by simp
qed

lemma rframe_mortonCode:
  assumes "rframe a fs0 fs" and "k < length fs0"
  shows "mortonCode (fs ! k) = mortonCode (fs0 ! k)"
proof -
  from assms have "putIdx a [] ((fs ! k) \<lparr> complete := False \<rparr>)
                          = putIdx a [] ((fs0 ! k) \<lparr> complete := False \<rparr>)"
    by (simp add: rframe_def)
  then have "mortonCode (putIdx a [] ((fs ! k) \<lparr> complete := False \<rparr>))
               = mortonCode (putIdx a [] ((fs0 ! k) \<lparr> complete := False \<rparr>))"
    by simp
  then show ?thesis by simp
qed

lemma corners_ok_cong:
  "edges f' = edges f \<Longrightarrow> getIdx b f' = getIdx b f \<Longrightarrow> corners_ok n b f' = corners_ok n b f"
  by (simp add: corners_ok_def)

lemma pass_face_ok:
  assumes fr: "rframe a fs0 fs'" and k: "k < length fs0" and ok: "face_ok sz (fs0 ! k)"
    and v: "\<forall>l<unat (edges (fs0 ! k)). unat (getIdx a (fs' ! k) ! l) < n'"
  shows "face_ok (sz (a := n')) (fs' ! k)"
proof -
  have ed: "edges (fs' ! k) = edges (fs0 ! k)" by (rule rframe_edges [OF fr k])
  have ft: "face_t (fs' ! k) = face_t (fs0 ! k)" by (rule rframe_face_t [OF fr k])
  from ok have shape: "edges (fs0 ! k) = 3 \<or> edges (fs0 ! k) = 4" "face_t (fs0 ! k) = []"
    and c: "\<And>b. corners_ok (sz b) b (fs0 ! k)"
    by (simp_all add: face_ok_all)
  from fr k have len: "length (getIdx a (fs' ! k)) = length (getIdx a (fs0 ! k))"
    and dr: "drop (unat (edges (fs0 ! k))) (getIdx a (fs' ! k))
               = drop (unat (edges (fs0 ! k))) (getIdx a (fs0 ! k))"
    by (simp_all add: rframe_def)
  have "\<And>b. corners_ok ((sz (a := n')) b) b (fs' ! k)"
  proof -
    fix b
    show "corners_ok ((sz (a := n')) b) b (fs' ! k)"
    proof (cases "b = a")
      case False
      then show ?thesis
        using c [of b] corners_ok_cong [OF ed rframe_other [OF fr k False]] by simp
    next
      case True
      from c [of a] have le: "unat (edges (fs0 ! k)) \<le> length (getIdx a (fs0 ! k))"
        and z: "list_all (\<lambda>x. x = 0) (drop (unat (edges (fs0 ! k))) (getIdx a (fs0 ! k)))"
        by (simp_all add: corners_ok_def)
      have "list_all (\<lambda>x. unat x < n') (take (unat (edges (fs0 ! k))) (getIdx a (fs' ! k)))"
        unfolding list_all_length using v le len by simp
      then show ?thesis
        using True le z len dr ed by (simp add: corners_ok_def)
    qed
  qed
  then show ?thesis using shape ed ft by (simp add: face_ok_all)
qed

lemma rframe_rewritten:
  assumes fr: "rframe a fs0 fs"
    and W: "\<And>k. k < length fs0 \<Longrightarrow> unat (edges (fs0 ! k)) \<le> length (getIdx a (fs0 ! k))"
  shows "rframe a fs0 (map (rewritten a g) fs)"
  unfolding rframe_def
proof (intro conjI allI impI)
  show "length (map (rewritten a g) fs) = length fs0" using fr by (simp add: rframe_def)
next
  fix k assume k: "k < length fs0"
  then have kl: "k < length fs" using fr by (simp add: rframe_def)
  have ed: "edges (fs ! k) = edges (fs0 ! k)" by (rule rframe_edges [OF fr k])
  have old: "putIdx a [] ((fs ! k) \<lparr> complete := False \<rparr>)
                 = putIdx a [] ((fs0 ! k) \<lparr> complete := False \<rparr>)"
      "length (getIdx a (fs ! k)) = length (getIdx a (fs0 ! k))"
      "drop (unat (edges (fs0 ! k))) (getIdx a (fs ! k))
         = drop (unat (edges (fs0 ! k))) (getIdx a (fs0 ! k))"
    using fr k by (simp_all add: rframe_def)
  show "putIdx a [] ((map (rewritten a g) fs ! k) \<lparr> complete := False \<rparr>)
          = putIdx a [] ((fs0 ! k) \<lparr> complete := False \<rparr>)"
    using old(1) kl by (simp add: rewritten_rest_complete)
  show "length (getIdx a (map (rewritten a g) fs ! k)) = length (getIdx a (fs0 ! k))"
    using old(2) kl by simp
  show "drop (unat (edges (fs0 ! k))) (getIdx a (map (rewritten a g) fs ! k))
          = drop (unat (edges (fs0 ! k))) (getIdx a (fs0 ! k))"
    using old(3) kl rewritten_drop [of "fs ! k" a g] W [OF k] old(2) ed by simp
qed

lemma rframe_mapE:
  assumes fr: "rframe a fs0 fs"
    and W: "\<And>k. k < length fs0 \<Longrightarrow> unat (edges (fs0 ! k)) \<le> length (getIdx a (fs0 ! k))"
  shows "mapE (rewriteCorners a g) fs = Inr (map (rewritten a g) fs)"
  by (rule mapE_rewrite) (rule rframe_wf [OF fr W])

lemma refs_ok_rewrite:
  assumes r: "refs_ok a isf fs0 fs xs"
    and W: "\<And>k. k < length fs0 \<Longrightarrow> unat (edges (fs0 ! k)) \<le> length (getIdx a (fs0 ! k))"
    and g: "\<And>c. unat c < length xs \<Longrightarrow> \<not> isf (xs ! unat c) \<Longrightarrow>
                unat (g c) < length xs' \<and> \<not> isf (xs' ! unat (g c))"
  shows "mapE (rewriteCorners a g) fs = Inr (map (rewritten a g) fs) \<and>
         refs_ok a isf fs0 (map (rewritten a g) fs) xs'"
proof -
  from r have fr: "rframe a fs0 fs" by (simp add: refs_ok_def)
  then have len: "length fs = length fs0" by (simp add: rframe_def)
  have "\<forall>k<length fs0. \<forall>l<unat (edges (fs0 ! k)).
          unat (getIdx a (map (rewritten a g) fs ! k) ! l) < length xs' \<and>
          \<not> isf (xs' ! unat (getIdx a (map (rewritten a g) fs ! k) ! l))"
  proof (intro allI impI)
    fix k l assume k: "k < length fs0" and l: "l < unat (edges (fs0 ! k))"
    have ed: "edges (fs ! k) = edges (fs0 ! k)" by (rule rframe_edges [OF fr k])
    have ln: "length (getIdx a (fs ! k)) = length (getIdx a (fs0 ! k))"
      using fr k by (simp add: rframe_def)
    have "getIdx a (rewritten a g (fs ! k)) ! l = g (getIdx a (fs ! k) ! l)"
      using rewritten_nth [of l a "fs ! k" g] W [OF k] l ed ln by simp
    moreover from r k l have "unat (getIdx a (fs ! k) ! l) < length xs"
        "\<not> isf (xs ! unat (getIdx a (fs ! k) ! l))"
      by (simp_all add: refs_ok_def)
    ultimately show "unat (getIdx a (map (rewritten a g) fs ! k) ! l) < length xs' \<and>
          \<not> isf (xs' ! unat (getIdx a (map (rewritten a g) fs ! k) ! l))"
      using g [of "getIdx a (fs ! k) ! l"] k len by simp
  qed
  then show ?thesis
    using rframe_rewritten [OF fr W] rframe_mapE [OF fr W] by (simp add: refs_ok_def)
qed

lemma markPair_valid:
  assumes r: "refs_ok a isf fs0 fs xs"
    and W: "\<And>k. k < length fs0 \<Longrightarrow> unat (edges (fs0 ! k)) \<le> length (getIdx a (fs0 ! k))"
    and i: "i < j" "j < length xs" "\<not> isf (xs ! i)" and big: "length xs \<le> 2 ^ 32"
  shows "\<exists>xs' fs' d'. markPair a near setf i j (xs, fs, d) = Inr (xs', fs', d') \<and>
           refs_ok a isf fs0 fs' xs' \<and> length xs' = length xs \<and> \<not> isf (xs' ! i)"
proof (cases "near (xs ! i) (xs ! j)")
  case False
  then show ?thesis using r i by (simp add: markPair_def)
next
  case True
  let ?g = "\<lambda>x :: u32. if x = of_nat j then of_nat i else x"
  let ?xs = "xs [j := setf (xs ! j)]"
  have uj: "unat (of_nat j :: u32) = j" and ui: "unat (of_nat i :: u32) = i"
    using i big by (simp_all add: unat_of_nat)
  have "mapE (rewriteCorners a ?g) fs = Inr (map (rewritten a ?g) fs) \<and>
        refs_ok a isf fs0 (map (rewritten a ?g) fs) ?xs"
  proof (rule refs_ok_rewrite [OF r W])
    fix c :: u32 assume c: "unat c < length xs" "\<not> isf (xs ! unat c)"
    show "unat (?g c) < length ?xs \<and> \<not> isf (?xs ! unat (?g c))"
    proof (cases "c = of_nat j")
      case True
      then show ?thesis using i ui by simp
    next
      case False
      then have "unat c \<noteq> j" using uj by (metis word_unat_eq_iff)
      then show ?thesis using False c by simp
    qed
  qed simp
  then show ?thesis using True i by (simp add: markPair_def)
qed

lemma markPhase_valid:
  assumes r: "refs_ok a isf fs fs xs"
    and W: "\<And>k. k < length fs \<Longrightarrow> unat (edges (fs ! k)) \<le> length (getIdx a (fs ! k))"
    and big: "length xs \<le> 2 ^ 32"
  shows "\<exists>xs' fs' d'. markPhase a isf near setf xs fs = Inr (xs', fs', d') \<and>
           refs_ok a isf fs fs' xs' \<and> length xs' = length xs"
proof -
  let ?J = "\<lambda>(xs', fs', d' :: nat). refs_ok a isf fs fs' xs' \<and> length xs' = length xs"
  let ?body = "\<lambda>i (xs', fs', d).
             if isf (xs' ! i) then Inr (xs', fs', d)
             else iter (markPair a near setf i) [i + 1 ..< length xs'] (xs', fs', d)"
  have "\<exists>s'. iter ?body [0 ..< length xs] (xs, fs, 0) = Inr s' \<and>
              (\<lambda>k. ?J) (max 0 (length xs)) s'"
  proof (rule iter_upt_total)
    show "?J (xs, fs, 0)" using r by simp
  next
    fix i and s :: "'a list \<times> Face list \<times> nat"
    assume i: "i < length xs" and J: "?J s"
    obtain xs1 fs1 d1 where s: "s = (xs1, fs1, d1)" by (cases s) auto
    from J s have r1: "refs_ok a isf fs fs1 xs1" and l1: "length xs1 = length xs" by auto
    show "\<exists>s'. ?body i s = Inr s' \<and> ?J s'"
    proof (cases "isf (xs1 ! i)")
      case True
      then show ?thesis using J s by simp
    next
      case False
      let ?K = "\<lambda>(xs', fs', d' :: nat). refs_ok a isf fs fs' xs' \<and> length xs' = length xs \<and> \<not> isf (xs' ! i)"
      have "\<exists>s'. iter (markPair a near setf i) [i + 1 ..< length xs1] (xs1, fs1, d1) = Inr s' \<and>
                  (\<lambda>k. ?K) (max (i + 1) (length xs1)) s'"
      proof (rule iter_upt_total)
        show "?K (xs1, fs1, d1)" using r1 l1 False by simp
      next
        fix j and t :: "'a list \<times> Face list \<times> nat"
        assume j: "i + 1 \<le> j" "j < length xs1" and K: "?K t"
        obtain xs2 fs2 d2 where t: "t = (xs2, fs2, d2)" by (cases t) auto
        from K t have r2: "refs_ok a isf fs fs2 xs2" and l2: "length xs2 = length xs"
          and n2: "\<not> isf (xs2 ! i)" by auto
        from markPair_valid [OF r2 W, of i j near setf d2] j l1 l2 n2 big
        show "\<exists>s'. markPair a near setf i j t = Inr s' \<and> ?K s'"
          using t by auto
      qed
      then show ?thesis using False s by auto
    qed
  qed
  then show ?thesis by (auto simp: markPhase_def)
qed

lemma removeFlushed_valid:
  assumes r: "refs_ok a isf fs0 fs xs"
    and W: "\<And>k. k < length fs0 \<Longrightarrow> unat (edges (fs0 ! k)) \<le> length (getIdx a (fs0 ! k))"
    and low: "\<And>m. m < i \<Longrightarrow> m < length xs \<Longrightarrow> \<not> isf (xs ! m)"
    and big: "length xs \<le> 2 ^ 32"
  shows "\<exists>xs' fs'. removeFlushed a isf i xs fs = Inr (xs', fs') \<and>
           refs_ok a isf fs0 fs' xs' \<and> length xs' \<le> length xs \<and> (\<forall>x\<in>set xs'. \<not> isf x)"
  using r W low big
proof (induction a isf i xs fs rule: removeFlushed.induct)
  case (1 a isf i xs fs)
  note r = "1.prems"(1) and W = "1.prems"(2) and low = "1.prems"(3) and big = "1.prems"(4)
  show ?case
  proof (cases "i < length xs")
    case False
    have "\<forall>x\<in>set xs. \<not> isf x"
      using False low by (auto simp: in_set_conv_nth)
    then show ?thesis using False r by (subst removeFlushed.simps) simp
  next
    case True
    show ?thesis
    proof (cases "isf (xs ! i)")
      case False
      have "\<And>m. m < i + 1 \<Longrightarrow> m < length xs \<Longrightarrow> \<not> isf (xs ! m)"
        using False low by (metis Suc_eq_plus1 less_Suc_eq)
      from "1.IH"(2) [OF True False r W this big]
      show ?thesis using True False by (subst removeFlushed.simps) simp
    next
      case isf: True
      let ?xs = "take i xs @ drop (i + 1) xs"
      let ?g = "\<lambda>x :: u32. if of_nat i < x then x - 1 else x"
      have rm: "RemoveAtIndex xs i = Inr ?xs" using True by (simp add: RemoveAtIndex_def)
      have ui: "unat (of_nat i :: u32) = i" using True big by (simp add: unat_of_nat)
      have rw: "mapE (rewriteCorners a ?g) fs = Inr (map (rewritten a ?g) fs) \<and>
            refs_ok a isf fs0 (map (rewritten a ?g) fs) ?xs"
      proof (rule refs_ok_rewrite [OF r W])
        fix c :: u32 assume c: "unat c < length xs" "\<not> isf (xs ! unat c)"
        then have ne: "unat c \<noteq> i" using isf by auto
        show "unat (?g c) < length ?xs \<and> \<not> isf (?xs ! unat (?g c))"
        proof (cases "of_nat i < c")
          case lt: True
          then have gt: "i < unat c" using ui by (simp add: word_less_nat_alt)
          then have "c \<noteq> 0" by auto
          then have u1: "unat (c - 1) = unat c - 1" by (simp add: unat_minus_one)
          have "\<not> unat c - 1 < i" using gt by arith
          moreover have "i + 1 + (unat c - 1 - i) = unat c" using gt by arith
          ultimately have "?xs ! (unat c - 1) = xs ! unat c"
            using c(1) True by (simp add: nth_append min_def del: One_nat_def)
          then show ?thesis using lt u1 gt c True by simp
        next
          case ge: False
          then have "unat c \<le> i" using ui by (simp add: word_less_nat_alt)
          with ne have "unat c < i" by simp
          then show ?thesis using ge c True by (simp add: nth_append)
        qed
      qed simp
      have low': "\<And>m. m < i \<Longrightarrow> m < length ?xs \<Longrightarrow> \<not> isf (?xs ! m)"
        using low True by (simp add: nth_append)
      have big': "length ?xs \<le> 2 ^ 32" using big by simp
      from "1.IH"(1) [OF True isf rm _ _ W low' big', of "map (rewritten a ?g) fs"] rw
      have "\<exists>xs' fs'. removeFlushed a isf i ?xs (map (rewritten a ?g) fs) = Inr (xs', fs') \<and>
           refs_ok a isf fs0 fs' xs' \<and> length xs' \<le> length ?xs \<and> (\<forall>x\<in>set xs'. \<not> isf x)"
        by simp
      then show ?thesis using True isf rm rw by (subst removeFlushed.simps) auto
    qed
  qed
qed

lemma face_ok_refs:
  assumes ok: "list_all (face_ok sz) fs" and sz: "sz a = length xs"
    and nf: "\<forall>x\<in>set xs. \<not> isf x"
  shows "refs_ok a isf fs fs xs"
    and "\<And>k. k < length fs \<Longrightarrow> unat (edges (fs ! k)) \<le> length (getIdx a (fs ! k))"
proof -
  have c: "\<And>k. k < length fs \<Longrightarrow> corners_ok (length xs) a (fs ! k)"
  proof -
    fix k assume "k < length fs"
    with ok have "face_ok sz (fs ! k)" by (simp add: list_all_length)
    then have "corners_ok (sz a) a (fs ! k)" by (simp add: face_ok_all)
    with sz show "corners_ok (length xs) a (fs ! k)" by simp
  qed
  show "\<And>k. k < length fs \<Longrightarrow> unat (edges (fs ! k)) \<le> length (getIdx a (fs ! k))"
    using c by (simp add: corners_ok_def)
  have "\<forall>k<length fs. \<forall>l<unat (edges (fs ! k)).
          unat (getIdx a (fs ! k) ! l) < length xs \<and> \<not> isf (xs ! unat (getIdx a (fs ! k) ! l))"
  proof (intro allI impI)
    fix k l assume "k < length fs" "l < unat (edges (fs ! k))"
    with c [of k] have "unat (getIdx a (fs ! k) ! l) < length xs" by (simp add: corners_ok_nth)
    with nf show "unat (getIdx a (fs ! k) ! l) < length xs \<and>
                  \<not> isf (xs ! unat (getIdx a (fs ! k) ! l))" by simp
  qed
  then show "refs_ok a isf fs fs xs" by (simp add: refs_ok_def rframe_refl)
qed

lemma refs_face_ok:
  assumes ok: "list_all (face_ok sz) fs" and r: "refs_ok a isf fs fs' xs'"
  shows "list_all (face_ok (sz (a := length xs'))) fs'"
proof -
  from r have fr: "rframe a fs fs'" by (simp add: refs_ok_def)
  then have len: "length fs' = length fs" by (simp add: rframe_def)
  have "\<And>k. k < length fs \<Longrightarrow> face_ok (sz (a := length xs')) (fs' ! k)"
  proof -
    fix k assume k: "k < length fs"
    show "face_ok (sz (a := length xs')) (fs' ! k)"
    proof (rule pass_face_ok [OF fr k])
      show "face_ok sz (fs ! k)" using ok k by (simp add: list_all_length)
      show "\<forall>l<unat (edges (fs ! k)). unat (getIdx a (fs' ! k) ! l) < length xs'"
        using r k by (simp add: refs_ok_def)
    qed
  qed
  then show ?thesis using len by (simp add: list_all_length)
qed

lemma dedupe_class_ok:
  assumes ok: "list_all (face_ok sz) fs" and sz: "sz a = length xs"
    and nf: "\<forall>x\<in>set xs. \<not> isf x" and big: "length xs \<le> 2 ^ 32"
  shows "\<exists>xs1 fs1 d xs2 fs2.
           markPhase a isf near setf xs fs = Inr (xs1, fs1, d) \<and>
           removeFlushed a isf 0 xs1 fs1 = Inr (xs2, fs2) \<and>
           list_all (face_ok (sz (a := length xs2))) fs2 \<and>
           (\<forall>x\<in>set xs2. \<not> isf x) \<and> length xs2 \<le> length xs \<and> length fs2 = length fs"
proof -
  note r = face_ok_refs [OF ok sz nf]
  from markPhase_valid [OF r(1) r(2) big, of near setf]
  obtain xs1 fs1 d where m: "markPhase a isf near setf xs fs = Inr (xs1, fs1, d)"
    and r1: "refs_ok a isf fs fs1 xs1" and l1: "length xs1 = length xs" by auto
  have "\<exists>xs' fs'. removeFlushed a isf 0 xs1 fs1 = Inr (xs', fs') \<and>
           refs_ok a isf fs fs' xs' \<and> length xs' \<le> length xs1 \<and> (\<forall>x\<in>set xs'. \<not> isf x)"
    by (rule removeFlushed_valid [OF r1 r(2)]) (use big l1 in simp_all)
  then obtain xs2 fs2 where rm: "removeFlushed a isf 0 xs1 fs1 = Inr (xs2, fs2)"
    and r2: "refs_ok a isf fs fs2 xs2" and l2: "length xs2 \<le> length xs1"
    and n2: "\<forall>x\<in>set xs2. \<not> isf x" by auto
  from r2 have "length fs2 = length fs" by (simp add: refs_ok_def rframe_def)
  with m rm refs_face_ok [OF ok r2] n2 l1 l2 show ?thesis by simp
qed

lemma sizes_upd:
  assumes "length ns = n" and "length ts = u"
  shows "(sizes s) (NormalIdx := n, UvIdx := u) =
   sizes (s \<lparr> vertices := vertices s, normals := ns, textureCoords := ts, faces := fs \<rparr>)"
proof (rule ext)
  fix a
  show "((sizes s) (NormalIdx := n, UvIdx := u)) a =
        sizes (s \<lparr> vertices := vertices s, normals := ns, textureCoords := ts, faces := fs \<rparr>) a"
    using assms by (cases a) simp_all
qed

lemma DeDupe_store_ok:
  assumes ok: "store_ok s"
  shows "\<exists>s' c. DeDupe ops vT nT uvT s = Inr (s', c) \<and> store_ok s' \<and>
           length (faces s') = length (faces s)"
proof -
  from ok have f0: "list_all (face_ok (sizes s)) (faces s)"
    and nv: "\<And>p. p \<in> set (vertices s) \<Longrightarrow> \<not> v_flushed p"
    and nn: "\<forall>p\<in>set (normals s). \<not> n_flushed p"
    and nt: "\<forall>p\<in>set (textureCoords s). \<not> t_flushed p"
    and big: "length (vertices s) \<le> 2 ^ 32" "length (normals s) \<le> 2 ^ 32"
      "length (textureCoords s) \<le> 2 ^ 32"
    by (simp_all add: store_ok_def list_all_iff)
  have v1: "markPhase VertexIdx (\<lambda>p. \<not> v_flushed p) (vertexNear ops vT)
             (\<lambda>p. p \<lparr> v_flushed := True \<rparr>) (vertices s) (faces s) = Inr (vertices s, faces s, 0)"
    by (rule markPhase_vertices_noop) (rule nv)
  have v2: "removeFlushed VertexIdx v_flushed 0 (vertices s) (faces s) = Inr (vertices s, faces s)"
    by (rule removeFlushed_none) (rule nv)
  from dedupe_class_ok [OF f0 _ nn big(2), of NormalIdx "normalNear ops nT"
      "\<lambda>p. p \<lparr> n_flushed := True \<rparr>"]
  obtain ns1 fs3 dN ns2 fs4 where
    n1: "markPhase NormalIdx n_flushed (normalNear ops nT) (\<lambda>p. p \<lparr> n_flushed := True \<rparr>)
           (normals s) (faces s) = Inr (ns1, fs3, dN)"
    and n2: "removeFlushed NormalIdx n_flushed 0 ns1 fs3 = Inr (ns2, fs4)"
    and f4: "list_all (face_ok ((sizes s) (NormalIdx := length ns2))) fs4"
    and nn2: "\<forall>x\<in>set ns2. \<not> n_flushed x" and ln: "length ns2 \<le> length (normals s)"
    and lf4: "length fs4 = length (faces s)"
    by auto
  from dedupe_class_ok [OF f4 _ nt big(3), of UvIdx "uvNear ops uvT"
      "\<lambda>p. p \<lparr> t_flushed := True \<rparr>"]
  obtain ts1 fs5 dU ts2 fs6 where
    u1: "markPhase UvIdx t_flushed (uvNear ops uvT) (\<lambda>p. p \<lparr> t_flushed := True \<rparr>)
           (textureCoords s) fs4 = Inr (ts1, fs5, dU)"
    and u2: "removeFlushed UvIdx t_flushed 0 ts1 fs5 = Inr (ts2, fs6)"
    and f6: "list_all (face_ok ((sizes s) (NormalIdx := length ns2, UvIdx := length ts2))) fs6"
    and nt2: "\<forall>x\<in>set ts2. \<not> t_flushed x" and lt: "length ts2 \<le> length (textureCoords s)"
    and lf6: "length fs6 = length fs4"
    by auto
  let ?s = "s \<lparr> vertices := vertices s, normals := ns2, textureCoords := ts2, faces := fs6 \<rparr>"
  have run: "DeDupe ops vT nT uvT s = Inr (?s, 0, dN, dU)"
    by (simp add: DeDupe_def v1 v2 n1 n2 u1 u2)
  have "(sizes s) (NormalIdx := length ns2, UvIdx := length ts2) = sizes ?s"
    by (rule sizes_upd) simp_all
  with f6 have "list_all (face_ok (sizes ?s)) (faces ?s)" by simp
  then have "store_ok ?s"
    using nv nn2 nt2 big ln lt by (simp add: store_ok_def list_all_iff)
  with run lf4 lf6 show ?thesis by simp
qed

lemma corners_ok_quad:
  assumes c: "corners_ok n a f" and e: "edges f = 4"
  shows "3 < length (getIdx a f)" and "\<And>l. l < 4 \<Longrightarrow> unat (getIdx a f ! l) < n"
    and "list_all (\<lambda>x. x = 0) (drop 4 (getIdx a f))"
proof -
  from c e show "3 < length (getIdx a f)" by (simp add: corners_ok_def)
  from c e show "\<And>l. l < 4 \<Longrightarrow> unat (getIdx a f ! l) < n" by (simp add: corners_ok_nth)
  from c e show "list_all (\<lambda>x. x = 0) (drop 4 (getIdx a f))" by (simp add: corners_ok_def)
qed

lemma corners_ok_drop:
  assumes c: "corners_ok n a f" and e: "edges f = 4"
    and g: "getIdx a f' = dropCorner3 moved (getIdx a f)" and e': "edges f' = 3"
  shows "corners_ok n a f'"
proof -
  note q = corners_ok_quad [OF c e]
  have t: "take 3 (getIdx a f') = take 3 (getIdx a f)"
    using q(1) g by (simp add: dropCorner3_def)
  have d: "drop 3 (getIdx a f') = (if moved then drop 4 (getIdx a f) @ [0] else drop 4 (getIdx a f))"
    using q(1) g by (simp add: dropCorner3_def)
  have "list_all (\<lambda>x. unat x < n) (take 3 (getIdx a f))"
    unfolding list_all_length using q(1,2) by simp
  moreover have "3 \<le> length (getIdx a f')"
    using q(1) g unfolding dropCorner3_def by (cases moved) auto
  ultimately show ?thesis using t d q(3) e' by (simp add: corners_ok_def)
qed

lemma corners_ok_pick:
  assumes c: "corners_ok n a f" and e: "edges f = 4"
  shows "\<exists>s. pick023 (getIdx a f) = Inr s \<and> length s = 3 \<and> list_all (\<lambda>x. unat x < n) s"
  using corners_ok_quad(1,2) [OF c e] by (simp add: pick023_def)

lemma Convert_ok:
  assumes ok: "list_all (face_ok sz) fs" and i: "i < length fs" and e: "edges (fs ! i) = 4"
  shows "\<exists>fs'. ConvertQuadToTriangles moved i fs = Inr fs' \<and> list_all (face_ok sz) fs'"
proof -
  let ?f = "fs ! i"
  from ok i have f: "face_ok sz ?f" by (simp add: list_all_length)
  then have c: "\<And>a. corners_ok (sz a) a ?f" and t: "face_t ?f = []" by (simp_all add: face_ok_all)
  from corners_ok_pick [OF c e, of VertexIdx] obtain nv where
    nv: "pick023 (face_v ?f) = Inr nv" "length nv = 3" "list_all (\<lambda>x. unat x < sz VertexIdx) nv"
    by auto
  from corners_ok_pick [OF c e, of NormalIdx] obtain nn where
    nn: "pick023 (face_n ?f) = Inr nn" "length nn = 3" "list_all (\<lambda>x. unat x < sz NormalIdx) nn"
    by auto
  from corners_ok_pick [OF c e, of UvIdx] obtain nuv where
    nuv: "pick023 (face_uv ?f) = Inr nuv" "length nuv = 3" "list_all (\<lambda>x. unat x < sz UvIdx) nuv"
    by auto
  let ?new = "\<lparr> edges = 3, face_v = nv, face_n = nn, face_t = [], face_uv = nuv,
                 materialID = materialID ?f, materialName = materialName ?f,
                 mortonCode = 0, complete = False \<rparr>"
  let ?f' = "?f \<lparr> edges := 3, face_v := dropCorner3 moved (face_v ?f),
                   face_n := dropCorner3 moved (face_n ?f),
                   face_uv := dropCorner3 moved (face_uv ?f) \<rparr>"
  have run: "ConvertQuadToTriangles moved i fs = Inr (fs [i := ?f'] @ [?new])"
    using nv(1) nn(1) nuv(1) t by (simp add: ConvertQuadToTriangles_def Let_def)
  have new: "face_ok sz ?new"
    using nv nn nuv by (simp add: face_ok_def corners_ok_def)
  have "\<And>a. corners_ok (sz a) a ?f'"
  proof -
    fix a
    show "corners_ok (sz a) a ?f'"
      by (rule corners_ok_drop [OF c e, where moved = moved]) (cases a; simp)+
  qed
  then have old: "face_ok sz ?f'" using t by (simp add: face_ok_all)
  have "list_all (face_ok sz) (fs [i := ?f'])"
    using ok old by (simp add: list_all_iff) (metis insert_iff set_update_subset_insert subsetD)
  with run new show ?thesis by simp
qed

lemma FakeQuadCheck_ok:
  "face_ok sz f \<Longrightarrow> edges f = 4 \<Longrightarrow> \<exists>b. FakeQuadCheck f = Inr b"
  using corners_ok_quad(1) [of "sz VertexIdx" VertexIdx f]
  by (simp add: FakeQuadCheck_def face_ok_def)

lemma ValidateQuad_ok:
  assumes f: "face_ok sz f" and e: "edges f = 4" and sz: "sz VertexIdx = length vs"
  shows "ValidateQuad ops vs f \<noteq> Inl IndexOutOfRange"
proof -
  from f have c: "corners_ok (length vs) VertexIdx f" using sz by (simp add: face_ok_def)
  note q = corners_ok_quad(1,2) [OF c e]
  have "\<And>l. l < 4 \<Longrightarrow> vertexAt vs (face_v f) l = Inr (vs ! unat (face_v f ! l))"
    using q by (simp add: vertexAt_def)
  then show ?thesis by (simp add: ValidateQuad_def)
qed

lemma quadLoop_ok:
  assumes "list_all (face_ok sz) fs" and sz: "sz VertexIdx = length vs"
  shows "quads_done sz (quadLoop full ops q vs i fs)"
  using assms(1)
proof (induction "length (filter (\<lambda>f. edges f = 4) (drop i fs)) + (length fs - i)"
         arbitrary: i fs rule: less_induct)
  case less
  note ok = less.prems
  show ?case
  proof (cases "i < length fs")
    case False
    then show ?thesis using ok by (subst quadLoop.simps) (simp add: quads_done_def)
  next
    case i: True
    then have f: "face_ok sz (fs ! i)" using ok by (simp add: list_all_length)
    have step: "quads_done sz (quadLoop full ops q vs (i + 1) fs)"
      by (rule less.hyps) (use i ok in \<open>simp_all add: quads_drop_step\<close>)
    show ?thesis
    proof (cases "edges (fs ! i) = 4")
      case False
      then show ?thesis using i step by (subst quadLoop.simps) simp
    next
      case e: True
      obtain b where fq: "FakeQuadCheck (fs ! i) = Inr b" using FakeQuadCheck_ok [OF f e] by auto
      obtain fs' where cv: "ConvertQuadToTriangles (full (length fs)) i fs = Inr fs'"
        and ok': "list_all (face_ok sz) fs'"
        using Convert_ok [OF ok i e] by auto
      have conv: "quads_done sz (quadLoop full ops q vs (i + 1) fs')"
        by (rule less.hyps) (use Convert_measure [OF cv i e] ok' in simp_all)
      note vq = ValidateQuad_ok [OF f e sz, of ops]
      show ?thesis
      proof (cases "ValidateQuad ops vs (fs ! i)")
        case (Inr u)
        then show ?thesis using i e fq cv step conv
          by (subst quadLoop.simps) auto
      next
        case (Inl err)
        with vq have "err \<noteq> IndexOutOfRange" by simp
        then show ?thesis using Inl i e fq cv step conv
          by (subst quadLoop.simps) (cases err; auto simp: quads_done_def)
      qed
    qed
  qed
qed

lemma quadStage_store_ok:
  assumes ok: "store_ok s"
  shows "quadStage full ops q s \<noteq> Inl IndexOutOfRange \<and>
         (\<forall>s'. quadStage full ops q s = Inr s' \<longrightarrow> store_ok s')"
proof -
  from ok have "list_all (face_ok (sizes s)) (faces s)" by (simp add: store_ok_def)
  from quadLoop_ok [OF this, of "vertices s" full ops q 0]
  have d: "quads_done (sizes s) (quadLoop full ops q (vertices s) 0 (faces s))" by simp
  have "sizes (s \<lparr> faces := fs \<rparr>) = sizes s" for fs
  proof (rule ext)
    fix a show "sizes (s \<lparr> faces := fs \<rparr>) a = sizes s a" by (cases a) simp_all
  qed
  then show ?thesis using d ok
    by (auto simp: quadStage_def quads_done_def store_ok_def split: sum.splits)
qed

lemma face_ok_complete [simp]: "face_ok sz (f \<lparr> complete := c \<rparr>) = face_ok sz f"
  by (simp add: face_ok_def corners_ok_def)

lemma face_ok_morton [simp]: "face_ok sz (f \<lparr> mortonCode := c \<rparr>) = face_ok sz f"
  by (simp add: face_ok_def corners_ok_def)

lemma faceRest_morton [simp]: "faceRest (f \<lparr> mortonCode := c \<rparr>) = faceRest f"
  by (simp add: faceRest_def)

lemma faceRest_complete [simp]: "faceRest (f \<lparr> complete := c \<rparr>) = faceRest f"
  by (simp add: faceRest_def)

lemma rframe_rest:
  assumes "rframe a fs0 fs" and "k < length fs0"
  shows "faceRest (fs ! k) = faceRest (fs0 ! k)"
proof -
  from assms have "putIdx a [] ((fs ! k) \<lparr> complete := False \<rparr>)
                          = putIdx a [] ((fs0 ! k) \<lparr> complete := False \<rparr>)"
    by (simp add: rframe_def)
  then have "faceRest (putIdx a [] ((fs ! k) \<lparr> complete := False \<rparr>))
               = faceRest (putIdx a [] ((fs0 ! k) \<lparr> complete := False \<rparr>))"
    by simp
  then show ?thesis by (cases a) (simp_all add: faceRest_def)
qed

lemma reindex_class_ok:
  fixes xs :: "'a list"
  assumes ok: "list_all (face_ok sz) fs" and sz: "sz a = length xs"
    and nf: "\<forall>x\<in>set xs. \<not> isf x" and sf: "\<And>x. isf (setf x)" and big: "length fs \<le> 2 ^ 32"
  shows "\<exists>fs' xs'. reindex a isf setf fs xs = Inr (fs', xs') \<and>
           list_all (face_ok (sz (a := length xs'))) fs' \<and>
           (\<forall>x\<in>set xs'. \<not> isf x) \<and> mset xs' \<subseteq># mset xs \<and>
           (all_used a fs (length xs) \<longrightarrow> mset xs' = mset xs) \<and>
           length fs' = length fs \<and>
           map mortonCode fs' = map mortonCode fs \<and> map faceRest fs' = map faceRest fs \<and>
           (\<forall>b. b \<noteq> a \<longrightarrow> map (getIdx b) fs' = map (getIdx b) fs)"
proof -
  let ?fs0 = "map (\<lambda>f. f \<lparr> complete := False \<rparr>) fs"
  have c: "\<And>k. k < length fs \<Longrightarrow> corners_ok (length xs) a (fs ! k)"
  proof -
    fix k assume "k < length fs"
    with ok have "face_ok sz (fs ! k)" by (simp add: list_all_length)
    then have "corners_ok (sz a) a (fs ! k)" by (simp add: face_ok_all)
    with sz show "corners_ok (length xs) a (fs ! k)" by simp
  qed
  have V: "\<And>k l. k < length fs \<Longrightarrow> l < unat (edges (fs ! k)) \<Longrightarrow>
             l < length (getIdx a (fs ! k)) \<and> unat (getIdx a (fs ! k) ! l) < length xs"
    using c by (fastforce simp: corners_ok_nth)
  from reindex_ok [of isf setf xs fs a, OF sf _ V big] nf
  obtain fs' xs' where run: "reindex a isf setf fs xs = Inr (fs', xs')"
    and fr: "rframe a ?fs0 fs'"
    and v: "\<forall>k<length fs. \<forall>l<unat (edges (fs ! k)). unat (getIdx a (fs' ! k) ! l) < length xs'"
    and sub: "mset xs' \<subseteq># mset xs"
    and eq: "(\<forall>x<length xs. \<exists>k<length fs. \<exists>l<unat (edges (fs ! k)).
                 unat (getIdx a (fs ! k) ! l) = x) \<longrightarrow> mset xs' = mset xs"
    by blast
  from fr have len: "length fs' = length fs" by (simp add: rframe_def)
  have "\<And>k. k < length fs \<Longrightarrow> face_ok (sz (a := length xs')) (fs' ! k)"
  proof -
    fix k assume k: "k < length fs"
    then have k0: "k < length ?fs0" by simp
    show "face_ok (sz (a := length xs')) (fs' ! k)"
    proof (rule pass_face_ok [OF fr k0])
      show "face_ok sz (?fs0 ! k)" using ok k by (simp add: list_all_length)
      show "\<forall>l<unat (edges (?fs0 ! k)). unat (getIdx a (fs' ! k) ! l) < length xs'"
        using v k by simp
    qed
  qed
  then have f': "list_all (face_ok (sz (a := length xs'))) fs'"
    using len by (simp add: list_all_length)
  from sub have "set xs' \<subseteq> set xs" by (metis set_mset_mono set_mset_mset)
  with nf have n': "\<forall>x\<in>set xs'. \<not> isf x" by blast
  have m: "map mortonCode fs' = map mortonCode fs"
  proof (rule nth_equalityI)
    show "length (map mortonCode fs') = length (map mortonCode fs)" using len by simp
    fix k assume "k < length (map mortonCode fs')"
    then have k: "k < length ?fs0" using len by simp
    from rframe_mortonCode [OF fr k] k len
    show "map mortonCode fs' ! k = map mortonCode fs ! k" by simp
  qed
  have r: "map faceRest fs' = map faceRest fs"
  proof (rule nth_equalityI)
    show "length (map faceRest fs') = length (map faceRest fs)" using len by simp
    fix k assume "k < length (map faceRest fs')"
    then have k: "k < length ?fs0" using len by simp
    from rframe_rest [OF fr k] k len
    show "map faceRest fs' ! k = map faceRest fs ! k" by simp
  qed
  have o: "\<forall>b. b \<noteq> a \<longrightarrow> map (getIdx b) fs' = map (getIdx b) fs"
  proof (intro allI impI)
    fix b assume b: "b \<noteq> a"
    show "map (getIdx b) fs' = map (getIdx b) fs"
    proof (rule nth_equalityI)
      show "length (map (getIdx b) fs') = length (map (getIdx b) fs)" using len by simp
      fix k assume "k < length (map (getIdx b) fs')"
      then have k: "k < length ?fs0" using len by simp
      from rframe_other [OF fr k b] k len
      show "map (getIdx b) fs' ! k = map (getIdx b) fs ! k" by simp
    qed
  qed
  from run f' n' sub eq len m r o show ?thesis by (simp add: all_used_def)
qed

lemma sumCorners_ok:
  assumes "corners_ok (length vs) VertexIdx f"
  shows "\<exists>c. sumCorners ops vs f = Inr c"
proof -
  have "\<exists>s'. iter (\<lambda>j (cx, cy, cz).
             case vertexAt vs (face_v f) j of
               Inl e \<Rightarrow> Inl e
             | Inr p \<Rightarrow> Inr (add32 ops cx (vX p), add32 ops cy (vY p), add32 ops cz (vZ p)))
          [0 ..< unat (edges f)] (lit32 ops 0, lit32 ops 0, lit32 ops 0) = Inr s' \<and>
          (\<lambda>k s. True) (max 0 (unat (edges f))) s'"
  proof (rule iter_upt_total)
    fix k and s :: "'a \<times> 'a \<times> 'a" assume k: "k < unat (edges f)"
    obtain cx cy cz where s: "s = (cx, cy, cz)" by (cases s) auto
    from assms k have "k < length (face_v f)" "unat (face_v f ! k) < length vs"
      by (simp_all add: corners_ok_nth)
    then have "vertexAt vs (face_v f) k = Inr (vs ! unat (face_v f ! k))"
      by (simp add: vertexAt_def)
    then show "\<exists>s'. (case s of (cx, cy, cz) \<Rightarrow>
             case vertexAt vs (face_v f) k of
               Inl e \<Rightarrow> Inl e
             | Inr p \<Rightarrow> Inr (add32 ops cx (vX p), add32 ops cy (vY p), add32 ops cz (vZ p))) = Inr s' \<and> True"
      using s by simp
  qed simp
  then show ?thesis by (auto simp: sumCorners_def)
qed

lemma faceMorton_ok:
  assumes "face_ok sz f" and "sz VertexIdx = length vs"
  shows "\<exists>c. faceMorton ops ext vs f = Inr (f \<lparr> mortonCode := c \<rparr>)"
proof -
  from assms have "corners_ok (length vs) VertexIdx f" by (simp add: face_ok_def)
  from sumCorners_ok [OF this, of ops] obtain cx cy cz where
    "sumCorners ops vs f = Inr (cx, cy, cz)" by (metis prod_cases3)
  then show ?thesis by (simp add: faceMorton_def Let_def) (rule exI, rule refl)
qed

lemma mapE_faceMorton:
  assumes ok: "list_all (face_ok sz) fs" and sz: "sz VertexIdx = length vs"
  shows "\<exists>fs1. mapE (faceMorton ops ext vs) fs = Inr fs1 \<and> list_all (face_ok sz) fs1 \<and>
           length fs1 = length fs \<and> map faceRest fs1 = map faceRest fs \<and>
           (\<forall>b. map (getIdx b) fs1 = map (getIdx b) fs) \<and>
           (\<forall>k<length fs. faceMorton ops ext vs (fs ! k) = Inr (fs1 ! k))"
  using ok
proof (induction fs)
  case Nil
  then show ?case by simp
next
  case (Cons f fs)
  then obtain fs1 where fs1: "mapE (faceMorton ops ext vs) fs = Inr fs1" "list_all (face_ok sz) fs1"
    "length fs1 = length fs" "map faceRest fs1 = map faceRest fs"
    "\<forall>b. map (getIdx b) fs1 = map (getIdx b) fs"
    "\<forall>k<length fs. faceMorton ops ext vs (fs ! k) = Inr (fs1 ! k)" by auto
  from Cons.prems have f: "face_ok sz f" by simp
  from faceMorton_ok [OF f sz, of ops ext] obtain c where
    c: "faceMorton ops ext vs f = Inr (f \<lparr> mortonCode := c \<rparr>)" by auto
  have g: "\<And>b. getIdx b (f \<lparr> mortonCode := c \<rparr>) = getIdx b f"
  proof -
    fix b show "getIdx b (f \<lparr> mortonCode := c \<rparr>) = getIdx b f" by (cases b) simp_all
  qed
  have "\<forall>k<length (f # fs). faceMorton ops ext vs ((f # fs) ! k) = Inr ((f \<lparr> mortonCode := c \<rparr> # fs1) ! k)"
    using c fs1(6) by (simp add: nth_Cons split: nat.split)
  then show ?case using fs1 c f g by simp
qed

lemma all_used_set:
  "all_used a fs n \<longleftrightarrow>
     (\<forall>x<n. \<exists>f\<in>set fs. \<exists>l<unat (edges f). unat (getIdx a f ! l) = x)"
  unfolding all_used_def by (metis in_set_conv_nth)

lemma all_used_perm:
  assumes "mset fs' = mset fs"
  shows "all_used a fs' n = all_used a fs n"
proof -
  from assms have "set fs' = set fs" by (rule mset_eq_setD)
  then show ?thesis by (simp add: all_used_set)
qed

lemma edges_faceRest: "edges (faceRest f) = edges f"
  by (simp add: faceRest_def)

lemma all_used_cong:
  assumes r: "map faceRest fs' = map faceRest fs" and g: "map (getIdx a) fs' = map (getIdx a) fs"
  shows "all_used a fs' n = all_used a fs n"
proof -
  from r have len: "length fs' = length fs" by (metis length_map)
  have e: "\<And>k. k < length fs \<Longrightarrow> edges (fs' ! k) = edges (fs ! k)"
  proof -
    fix k assume k: "k < length fs"
    with r len have "faceRest (fs' ! k) = faceRest (fs ! k)" by (metis nth_map)
    then show "edges (fs' ! k) = edges (fs ! k)" by (metis edges_faceRest)
  qed
  have i: "\<And>k. k < length fs \<Longrightarrow> getIdx a (fs' ! k) = getIdx a (fs ! k)"
    using g len by (metis nth_map)
  show ?thesis unfolding all_used_def using len e i by (simp cong: conj_cong)
qed

lemma sizes_faces [simp]: "sizes (s \<lparr> faces := fs \<rparr>) = sizes s"
proof (rule ext)
  fix a show "sizes (s \<lparr> faces := fs \<rparr>) a = sizes s a" by (cases a) simp_all
qed

lemma sizes_all:
  "sizes (s \<lparr> faces := fs, vertices := vs, normals := ns, textureCoords := ts \<rparr>)
     = (sizes s) (VertexIdx := length vs, NormalIdx := length ns, UvIdx := length ts)"
proof (rule ext)
  fix a
  show "sizes (s \<lparr> faces := fs, vertices := vs, normals := ns, textureCoords := ts \<rparr>) a
     = ((sizes s) (VertexIdx := length vs, NormalIdx := length ns, UvIdx := length ts)) a"
    by (cases a) simp_all
qed

lemma OptimiseMesh_run:
  assumes ok: "store_ok s" and big: "length (faces s) \<le> 2 ^ 32" and perm: "sortPermutes sortFunc"
  shows "\<exists>fs1 s'.
     mapE (faceMorton ops (extentsOf ops (boundSphere s)) (vertices s)) (faces s) = Inr fs1 \<and>
     OptimiseMesh sortFunc ops s = Inr s' \<and> store_ok s' \<and>
     map faceRest fs1 = map faceRest (faces s) \<and>
     (\<forall>b. map (getIdx b) fs1 = map (getIdx b) (faces s)) \<and>
     map mortonCode (faces s') = map mortonCode (sortFunc cmpMorton fs1) \<and>
     map faceRest (faces s') = map faceRest (sortFunc cmpMorton fs1) \<and>
     mset (vertices s') \<subseteq># mset (vertices s) \<and>
     mset (normals s') \<subseteq># mset (normals s) \<and>
     mset (textureCoords s') \<subseteq># mset (textureCoords s) \<and>
     (all_used VertexIdx (faces s) (length (vertices s)) \<longrightarrow> mset (vertices s') = mset (vertices s)) \<and>
     (all_used NormalIdx (faces s) (length (normals s)) \<longrightarrow> mset (normals s') = mset (normals s)) \<and>
     (all_used UvIdx (faces s) (length (textureCoords s))
        \<longrightarrow> mset (textureCoords s') = mset (textureCoords s)) \<and>
     materials s' = materials s \<and> materialMap s' = materialMap s \<and>
     boundSphere s' = boundSphere s \<and> vertexType s' = vertexType s"
proof -
  from ok have f0: "list_all (face_ok (sizes s)) (faces s)"
    and nv: "\<forall>p\<in>set (vertices s). \<not> v_flushed p"
    and nn: "\<forall>p\<in>set (normals s). \<not> n_flushed p"
    and nt: "\<forall>p\<in>set (textureCoords s). \<not> t_flushed p"
    and bg: "length (vertices s) \<le> 2 ^ 32" "length (normals s) \<le> 2 ^ 32"
      "length (textureCoords s) \<le> 2 ^ 32"
    by (simp_all add: store_ok_def list_all_iff)
  from mapE_faceMorton [OF f0, of "vertices s" ops "extentsOf ops (boundSphere s)"]
  obtain fs1 where m: "mapE (faceMorton ops (extentsOf ops (boundSphere s)) (vertices s)) (faces s) = Inr fs1"
    and f1: "list_all (face_ok (sizes s)) fs1" and l1: "length fs1 = length (faces s)"
    and r1: "map faceRest fs1 = map faceRest (faces s)"
    and g1: "\<forall>b. map (getIdx b) fs1 = map (getIdx b) (faces s)"
    by auto
  let ?srt = "sortFunc cmpMorton fs1"
  have sfv: "\<And>x :: 'a Vertex. v_flushed (x \<lparr> v_flushed := True \<rparr>)" by simp
  have sfn: "\<And>x :: 'a Normal. n_flushed (x \<lparr> n_flushed := True \<rparr>)" by simp
  have sft: "\<And>x :: 'a TextureCoord. t_flushed (x \<lparr> t_flushed := True \<rparr>)" by simp
  from perm have p: "mset ?srt = mset fs1" by (simp add: sortPermutes_def)
  then have ls: "length ?srt = length fs1" by (metis size_mset)
  from p have "set ?srt = set fs1" by (rule mset_eq_setD)
  with f1 have fsrt: "list_all (face_ok (sizes s)) ?srt" by (simp add: list_all_iff)
  have bs: "length ?srt \<le> 2 ^ 32" using ls l1 big by simp
  have u0: "\<And>a n. all_used a ?srt n = all_used a (faces s) n"
  proof -
    fix a n
    from g1 have "map (getIdx a) fs1 = map (getIdx a) (faces s)" by simp
    from all_used_cong [OF r1 this] all_used_perm [OF p]
    show "all_used a ?srt n = all_used a (faces s) n" by simp
  qed
  have "sizes s VertexIdx = length (vertices s)" by simp
  from reindex_class_ok [where isf = v_flushed and setf = "\<lambda>p. p \<lparr> v_flushed := True \<rparr>",
      OF fsrt this nv sfv bs]
  obtain fs2 vs' where v: "reindex VertexIdx v_flushed (\<lambda>p. p \<lparr> v_flushed := True \<rparr>) ?srt (vertices s)
         = Inr (fs2, vs')"
    and f2: "list_all (face_ok ((sizes s) (VertexIdx := length vs'))) fs2"
    and nv': "\<forall>x\<in>set vs'. \<not> v_flushed x" and sv: "mset vs' \<subseteq># mset (vertices s)"
    and ev: "all_used VertexIdx ?srt (length (vertices s)) \<longrightarrow> mset vs' = mset (vertices s)"
    and l2: "length fs2 = length ?srt" and m2: "map mortonCode fs2 = map mortonCode ?srt"
    and r2: "map faceRest fs2 = map faceRest ?srt"
    and g2: "\<forall>b. b \<noteq> VertexIdx \<longrightarrow> map (getIdx b) fs2 = map (getIdx b) ?srt"
    by blast
  have b2: "length fs2 \<le> 2 ^ 32" using l2 bs by simp
  have "((sizes s) (VertexIdx := length vs')) NormalIdx = length (normals s)" by simp
  from reindex_class_ok [where isf = n_flushed and setf = "\<lambda>p. p \<lparr> n_flushed := True \<rparr>",
      OF f2 this nn sfn b2]
  obtain fs3 ns' where n: "reindex NormalIdx n_flushed (\<lambda>p. p \<lparr> n_flushed := True \<rparr>) fs2 (normals s)
         = Inr (fs3, ns')"
    and f3: "list_all (face_ok ((sizes s) (VertexIdx := length vs', NormalIdx := length ns'))) fs3"
    and nn': "\<forall>x\<in>set ns'. \<not> n_flushed x" and sn: "mset ns' \<subseteq># mset (normals s)"
    and en: "all_used NormalIdx fs2 (length (normals s)) \<longrightarrow> mset ns' = mset (normals s)"
    and l3: "length fs3 = length fs2" and m3: "map mortonCode fs3 = map mortonCode fs2"
    and r3: "map faceRest fs3 = map faceRest fs2"
    and g3: "\<forall>b. b \<noteq> NormalIdx \<longrightarrow> map (getIdx b) fs3 = map (getIdx b) fs2"
    by blast
  have b3: "length fs3 \<le> 2 ^ 32" using l3 b2 by simp
  have "((sizes s) (VertexIdx := length vs', NormalIdx := length ns')) UvIdx
          = length (textureCoords s)" by simp
  from reindex_class_ok [where isf = t_flushed and setf = "\<lambda>p. p \<lparr> t_flushed := True \<rparr>",
      OF f3 this nt sft b3]
  obtain fs4 ts' where t: "reindex UvIdx t_flushed (\<lambda>p. p \<lparr> t_flushed := True \<rparr>) fs3 (textureCoords s)
         = Inr (fs4, ts')"
    and f4: "list_all (face_ok ((sizes s) (VertexIdx := length vs', NormalIdx := length ns',
               UvIdx := length ts'))) fs4"
    and nt': "\<forall>x\<in>set ts'. \<not> t_flushed x" and st: "mset ts' \<subseteq># mset (textureCoords s)"
    and et: "all_used UvIdx fs3 (length (textureCoords s)) \<longrightarrow> mset ts' = mset (textureCoords s)"
    and l4: "length fs4 = length fs3" and m4: "map mortonCode fs4 = map mortonCode fs3"
    and r4: "map faceRest fs4 = map faceRest fs3"
    by blast
  let ?s = "s \<lparr> faces := fs4, vertices := vs', normals := ns', textureCoords := ts' \<rparr>"
  have run: "OptimiseMesh sortFunc ops s = Inr ?s"
    by (simp add: OptimiseMesh_def m v n t)
  have lv: "length vs' \<le> 2 ^ 32" using size_mset_mono [OF sv] bg(1) by simp
  have ln: "length ns' \<le> 2 ^ 32" using size_mset_mono [OF sn] bg(2) by simp
  have lt: "length ts' \<le> 2 ^ 32" using size_mset_mono [OF st] bg(3) by simp
  have "sizes ?s = (sizes s) (VertexIdx := length vs', NormalIdx := length ns', UvIdx := length ts')"
    by (rule sizes_all)
  with f4 have "list_all (face_ok (sizes ?s)) (faces ?s)" by simp
  then have sok: "store_ok ?s"
    unfolding store_ok_def using nv' nn' nt' lv ln lt by (simp add: list_all_iff)
  have A: "map mortonCode fs4 = map mortonCode ?srt" by (simp only: m4 m3 m2)
  have B: "map faceRest fs4 = map faceRest ?srt" by (simp only: r4 r3 r2)
  have gn: "map (getIdx NormalIdx) fs2 = map (getIdx NormalIdx) ?srt" using g2 by simp
  have gt: "map (getIdx UvIdx) fs3 = map (getIdx UvIdx) ?srt" using g3 g2 by simp
  have rt: "map faceRest fs3 = map faceRest ?srt" by (simp only: r3 r2)
  have ev': "all_used VertexIdx (faces s) (length (vertices s)) \<longrightarrow> mset vs' = mset (vertices s)"
    using ev by (simp only: u0)
  have en': "all_used NormalIdx (faces s) (length (normals s)) \<longrightarrow> mset ns' = mset (normals s)"
    using en by (simp only: all_used_cong [OF r2 gn] u0)
  have et': "all_used UvIdx (faces s) (length (textureCoords s))
               \<longrightarrow> mset ts' = mset (textureCoords s)"
    using et by (simp only: all_used_cong [OF rt gt] u0)
  have fin: "mapE (faceMorton ops (extentsOf ops (boundSphere s)) (vertices s)) (faces s) = Inr fs1 \<and>
     OptimiseMesh sortFunc ops s = Inr ?s \<and> store_ok ?s \<and>
     map faceRest fs1 = map faceRest (faces s) \<and>
     (\<forall>b. map (getIdx b) fs1 = map (getIdx b) (faces s)) \<and>
     map mortonCode (faces ?s) = map mortonCode (sortFunc cmpMorton fs1) \<and>
     map faceRest (faces ?s) = map faceRest (sortFunc cmpMorton fs1) \<and>
     mset (vertices ?s) \<subseteq># mset (vertices s) \<and>
     mset (normals ?s) \<subseteq># mset (normals s) \<and>
     mset (textureCoords ?s) \<subseteq># mset (textureCoords s) \<and>
     (all_used VertexIdx (faces s) (length (vertices s)) \<longrightarrow> mset (vertices ?s) = mset (vertices s)) \<and>
     (all_used NormalIdx (faces s) (length (normals s)) \<longrightarrow> mset (normals ?s) = mset (normals s)) \<and>
     (all_used UvIdx (faces s) (length (textureCoords s))
        \<longrightarrow> mset (textureCoords ?s) = mset (textureCoords s)) \<and>
     materials ?s = materials s \<and> materialMap ?s = materialMap s \<and>
     boundSphere ?s = boundSphere s \<and> vertexType ?s = vertexType s"
    using m run sok r1 g1 A B sv sn st ev' en' et' by (intro conjI) simp_all
  show ?thesis by (rule exI [of _ fs1], rule exI [of _ ?s]) (rule fin)
qed

end
